theory Spec2Isabelle
  imports Main "HOL-Library.Multiset"
begin

section \<open>The skip list of \<open>src/primer/skiplist.cpp\<close>\<close>

text \<open>
  The container is a linked structure of reference-counted nodes. The model keeps the nodes
  in an explicit store, a list indexed by address; a \<open>shared_ptr\<close> is an optional
  address (\<open>None\<close> is \<open>nullptr\<close>). A node released by its last owner stays in the store,
  unreachable: reclamation is not modelled.

  The counters of the source (\<open>size_\<close>, \<open>level\<close>, \<open>height\<close>: \<open>size_t\<close>; the loop index
  \<open>i\<close>: \<open>int\<close>) are natural numbers. A node occupies memory, so a 64-bit count of live
  nodes never wraps upwards; \<open>--size_\<close> is written as truncated subtraction and is only
  executed after a key was found. \<open>MaxHeight\<close> is a template constant (8 in one of the
  explicit instantiations), so \<open>MaxHeight - 1\<close> fits the \<open>int\<close> index; for \<open>MaxHeight = 0\<close>
  the loops over the levels do not run, in the source as in the model.
\<close>

subsection \<open>Nodes\<close>

type_synonym addr = nat
type_synonym ptr = "addr option"

record 'k SkipNode =
  links :: "ptr list"
  nkey :: 'k

datatype fault =
    OutOfRange nat    \<comment> \<open>the string thrown by \<open>Next\<close> and \<open>SetNext\<close>: level out of range\<close>
  | NullDeref         \<comment> \<open>\<open>*p\<close> on a null pointer\<close>
  | Dangling          \<comment> \<open>an address outside the store\<close>
  | EmptyStack        \<comment> \<open>\<open>top()\<close> or \<open>pop()\<close> on an empty \<open>std::stack\<close>\<close>
  | LinkIndex         \<comment> \<open>\<open>links_[i]\<close> read directly with \<open>i\<close> outside the vector\<close>

text \<open>
  Modelled from the spec: the constructor \<open>SkipNode(height, key)\<close> is declared in the header
  \<open>primer/skiplist.h\<close>, which is not among the sources. The spec (section 4.4) says the node
  is constructed with \<open>height\<close> forward-reference slots; a fresh slot holds no reference.
\<close>

definition SkipNode_new :: "nat \<Rightarrow> 'k \<Rightarrow> 'k SkipNode" where
  "SkipNode_new height key = \<lparr>links = replicate height None, nkey = key\<rparr>"

definition Height :: "'k SkipNode \<Rightarrow> nat" where
  "Height n = length (links n)"

definition Next :: "nat \<Rightarrow> 'k SkipNode \<Rightarrow> fault + ptr" where
  "Next level n =
     (if level \<ge> length (links n) then Inl (OutOfRange level)
      else Inr (links n ! level))"

definition SetNext :: "nat \<Rightarrow> ptr \<Rightarrow> 'k SkipNode \<Rightarrow> fault + 'k SkipNode" where
  "SetNext level node n =
     (if level \<ge> length (links n) then Inl (OutOfRange level)
      else Inr (n\<lparr>links := (links n)[level := node]\<rparr>))"

definition Key :: "'k SkipNode \<Rightarrow> 'k" where
  "Key n = nkey n"

subsection \<open>The store\<close>

type_synonym 'k store = "'k SkipNode list"

definition node_at :: "'k store \<Rightarrow> addr \<Rightarrow> fault + 'k SkipNode" where
  "node_at h a = (if a < length h then Inr (h ! a) else Inl Dangling)"

text \<open>\<open>(*p).Next(level)\<close>, \<open>(*p).Key()\<close>, \<open>(*p).Height()\<close> and \<open>(*p).SetNext(level, q)\<close>
  for a non-null \<open>p\<close>.\<close>

definition Next_at :: "'k store \<Rightarrow> addr \<Rightarrow> nat \<Rightarrow> fault + ptr" where
  "Next_at h a level = (case node_at h a of Inl e \<Rightarrow> Inl e | Inr n \<Rightarrow> Next level n)"

definition Key_at :: "'k store \<Rightarrow> addr \<Rightarrow> fault + 'k" where
  "Key_at h a = (case node_at h a of Inl e \<Rightarrow> Inl e | Inr n \<Rightarrow> Inr (Key n))"

definition Height_at :: "'k store \<Rightarrow> addr \<Rightarrow> fault + nat" where
  "Height_at h a = (case node_at h a of Inl e \<Rightarrow> Inl e | Inr n \<Rightarrow> Inr (Height n))"

definition SetNext_at :: "'k store \<Rightarrow> addr \<Rightarrow> nat \<Rightarrow> ptr \<Rightarrow> fault + 'k store" where
  "SetNext_at h a level q =
     (case node_at h a of Inl e \<Rightarrow> Inl e
      | Inr n \<Rightarrow> (case SetNext level q n of Inl e \<Rightarrow> Inl e | Inr n' \<Rightarrow> Inr (h[a := n'])))"

subsection \<open>The container\<close>

text \<open>
  \<open>'g\<close> is the state of the random generator \<open>rng_\<close> (\<open>std::mt19937\<close> in the header).
  The generator itself is a parameter \<open>gen\<close> of the operations: one call \<open>rng_()\<close> returns
  a number and the next generator state. The comparator \<open>compare_\<close> and the template
  argument \<open>MaxHeight\<close> are parameters too.
\<close>

record ('k, 'g) SkipList =
  header :: addr
  store :: "'k store"
  size' :: nat
  rng :: 'g

text \<open>
  Modelled from the spec: the member initialisers of the container are in the header
  \<open>primer/skiplist.h\<close>, which is not among the sources. The spec (section 3) says the
  header is a node with a forward-reference array sized to the maximum height, that the
  count starts at zero, and that the sampler is seeded at construction. \<open>k0\<close> is the
  key the header happens to carry (it is never compared), \<open>g0\<close> the seeded generator.
\<close>

definition SkipList_new :: "nat \<Rightarrow> 'k \<Rightarrow> 'g \<Rightarrow> ('k, 'g) SkipList" where
  "SkipList_new MaxHeight k0 g0 =
     \<lparr>header = 0, store = [SkipNode_new MaxHeight k0], size' = 0, rng = g0\<rparr>"

definition Empty :: "('k, 'g) SkipList \<Rightarrow> bool" where
  "Empty s = (size' s = 0)"

definition Size :: "('k, 'g) SkipList \<Rightarrow> nat" where
  "Size s = size' s"

subsection \<open>RandomHeight\<close>

text \<open>The loop of \<open>RandomHeight\<close>: \<open>rng_()\<close> is only called while \<open>height < MaxHeight\<close>.\<close>

function RandomHeight_loop :: "('g \<Rightarrow> nat \<times> 'g) \<Rightarrow> nat \<Rightarrow> nat \<Rightarrow> 'g \<Rightarrow> nat \<times> 'g" where
  "RandomHeight_loop gen MaxHeight height g =
     (if height < MaxHeight then
        (case gen g of (r, g') \<Rightarrow>
           if r mod 4 = 0 then RandomHeight_loop gen MaxHeight (height + 1) g'
           else (height, g'))
      else (height, g))"
  by pat_completeness auto
termination
  by (relation "measure (\<lambda>(gen, MaxHeight, height, g). MaxHeight - height)") auto

definition RandomHeight :: "('g \<Rightarrow> nat \<times> 'g) \<Rightarrow> nat \<Rightarrow> 'g \<Rightarrow> nat \<times> 'g" where
  "RandomHeight gen MaxHeight g = RandomHeight_loop gen MaxHeight 1 g"

subsection \<open>Contains\<close>

text \<open>
  The inner \<open>while (true)\<close> of \<open>Contains\<close> at level \<open>i\<close>, from \<open>cur_ptr\<close>. It returns
  \<open>Inr (True, _)\<close> where the source returns true from the function, and
  \<open>Inr (False, cur_ptr)\<close> where it breaks. On a cyclic chain the loop does not return:
  the value is \<open>None\<close>.
\<close>

partial_function (option) Contains_walk ::
  "('k \<Rightarrow> 'k \<Rightarrow> bool) \<Rightarrow> 'k \<Rightarrow> 'k store \<Rightarrow> nat \<Rightarrow> addr \<Rightarrow> (fault + bool \<times> addr) option" where
  "Contains_walk compare key h i cur_ptr =
     (case Next_at h cur_ptr i of Inl e \<Rightarrow> Some (Inl e)
      | Inr None \<Rightarrow> Some (Inr (False, cur_ptr))
      | Inr (Some nxt_ptr) \<Rightarrow>
          (case Key_at h nxt_ptr of Inl e \<Rightarrow> Some (Inl e)
           | Inr nxt_key \<Rightarrow>
               if compare key nxt_key then Some (Inr (False, cur_ptr))
               else if \<not> compare nxt_key key then Some (Inr (True, cur_ptr))
               else Contains_walk compare key h i nxt_ptr))"

text \<open>The \<open>for\<close> loop over the levels \<open>n - 1, ..., 0\<close>.\<close>

fun Contains_levels ::
  "('k \<Rightarrow> 'k \<Rightarrow> bool) \<Rightarrow> 'k \<Rightarrow> 'k store \<Rightarrow> nat \<Rightarrow> addr \<Rightarrow> (fault + bool) option" where
  "Contains_levels compare key h 0 cur_ptr = Some (Inr False)"
| "Contains_levels compare key h (Suc i) cur_ptr =
     (case Contains_walk compare key h i cur_ptr of None \<Rightarrow> None
      | Some (Inl e) \<Rightarrow> Some (Inl e)
      | Some (Inr (True, _)) \<Rightarrow> Some (Inr True)
      | Some (Inr (False, cur_ptr')) \<Rightarrow> Contains_levels compare key h i cur_ptr')"

declare Contains_walk.simps [code]

definition Contains ::
  "('k \<Rightarrow> 'k \<Rightarrow> bool) \<Rightarrow> nat \<Rightarrow> ('k, 'g) SkipList \<Rightarrow> 'k \<Rightarrow> (fault + bool) option" where
  "Contains compare MaxHeight s key =
     Contains_levels compare key (store s) MaxHeight (header s)"

subsection \<open>Insert\<close>

text \<open>
  The inner \<open>while (true)\<close> of \<open>Insert\<close> at level \<open>i\<close>: it breaks on a null successor or on
  a successor whose key is greater than \<open>key\<close>, and steps forward otherwise.
\<close>

partial_function (option) Insert_walk ::
  "('k \<Rightarrow> 'k \<Rightarrow> bool) \<Rightarrow> 'k \<Rightarrow> 'k store \<Rightarrow> nat \<Rightarrow> addr \<Rightarrow> (fault + addr) option" where
  "Insert_walk compare key h i cur_ptr =
     (case Next_at h cur_ptr i of Inl e \<Rightarrow> Some (Inl e)
      | Inr None \<Rightarrow> Some (Inr cur_ptr)
      | Inr (Some nxt_ptr) \<Rightarrow>
          (case Key_at h nxt_ptr of Inl e \<Rightarrow> Some (Inl e)
           | Inr nxt_key \<Rightarrow>
               if compare key nxt_key then Some (Inr cur_ptr)
               else Insert_walk compare key h i nxt_ptr))"

declare Insert_walk.simps [code]

text \<open>\<open>if (nodes.empty() or cur_ptr != nodes.top()) nodes.push(cur_ptr)\<close>; the top of the
  stack is the head of the list.\<close>

definition push_new :: "addr \<Rightarrow> addr list \<Rightarrow> addr list" where
  "push_new cur_ptr nodes =
     (if nodes = [] \<or> cur_ptr \<noteq> hd nodes then cur_ptr # nodes else nodes)"

fun Insert_levels ::
  "('k \<Rightarrow> 'k \<Rightarrow> bool) \<Rightarrow> 'k \<Rightarrow> 'k store \<Rightarrow> nat \<Rightarrow> addr \<Rightarrow> addr list
     \<Rightarrow> (fault + addr list) option" where
  "Insert_levels compare key h 0 cur_ptr nodes = Some (Inr nodes)"
| "Insert_levels compare key h (Suc i) cur_ptr nodes =
     (case Insert_walk compare key h i cur_ptr of None \<Rightarrow> None
      | Some (Inl e) \<Rightarrow> Some (Inl e)
      | Some (Inr cur_ptr') \<Rightarrow>
          Insert_levels compare key h i cur_ptr' (push_new cur_ptr' nodes))"

text \<open>A call \<open>(*a).SetNext(level, q)\<close>, recorded in the order of execution.\<close>

datatype call = SetNextCall addr nat ptr

text \<open>The inner \<open>while (level < std::min(height, (*node).Height()))\<close> of the splice.\<close>

function Insert_links ::
  "'k store \<Rightarrow> addr \<Rightarrow> nat \<Rightarrow> addr \<Rightarrow> nat \<Rightarrow> call list
     \<Rightarrow> fault + 'k store \<times> nat \<times> call list" where
  "Insert_links h to_insert height node level tr =
     (case Height_at h node of Inl e \<Rightarrow> Inl e
      | Inr node_height \<Rightarrow>
          if level < min height node_height then
            (case Next_at h node level of Inl e \<Rightarrow> Inl e
             | Inr nxt_node \<Rightarrow>
                 (case SetNext_at h node level (Some to_insert) of Inl e \<Rightarrow> Inl e
                  | Inr h1 \<Rightarrow>
                      (case SetNext_at h1 to_insert level nxt_node of Inl e \<Rightarrow> Inl e
                       | Inr h2 \<Rightarrow>
                           Insert_links h2 to_insert height node (level + 1)
                             (tr @ [SetNextCall node level (Some to_insert),
                                    SetNextCall to_insert level nxt_node]))))
          else Inr (h, level, tr))"
  by pat_completeness auto
termination
  by (relation "measure (\<lambda>(h, to_insert, height, node, level, tr). height - level)") auto

declare Insert_links.simps [simp del]

text \<open>The outer \<open>while (level < height)\<close>: each round pops one recorded node.\<close>

fun Insert_splice ::
  "'k store \<Rightarrow> addr \<Rightarrow> nat \<Rightarrow> addr list \<Rightarrow> nat \<Rightarrow> call list
     \<Rightarrow> fault + 'k store \<times> call list" where
  "Insert_splice h to_insert height [] level tr =
     (if level < height then Inl EmptyStack else Inr (h, tr))"
| "Insert_splice h to_insert height (node # nodes) level tr =
     (if level < height then
        (case Insert_links h to_insert height node level tr of Inl e \<Rightarrow> Inl e
         | Inr (h', level', tr') \<Rightarrow> Insert_splice h' to_insert height nodes level' tr')
      else Inr (h, tr))"

text \<open>
  \<open>Insert\<close>, with the list of the \<open>SetNext\<close> calls it made. \<open>std::make_shared\<close> allocates
  the new node at the first free address of the store.
\<close>

definition Insert_traced ::
  "('k \<Rightarrow> 'k \<Rightarrow> bool) \<Rightarrow> ('g \<Rightarrow> nat \<times> 'g) \<Rightarrow> nat \<Rightarrow> ('k, 'g) SkipList \<Rightarrow> 'k
     \<Rightarrow> (fault + bool \<times> ('k, 'g) SkipList \<times> call list) option" where
  "Insert_traced compare gen MaxHeight s key =
     (case Contains compare MaxHeight s key of None \<Rightarrow> None
      | Some (Inl e) \<Rightarrow> Some (Inl e)
      | Some (Inr True) \<Rightarrow> Some (Inr (False, s, []))
      | Some (Inr False) \<Rightarrow>
          (case Insert_levels compare key (store s) MaxHeight (header s) [] of None \<Rightarrow> None
           | Some (Inl e) \<Rightarrow> Some (Inl e)
           | Some (Inr nodes) \<Rightarrow>
               (case RandomHeight gen MaxHeight (rng s) of (height, g') \<Rightarrow>
                  (let to_insert = length (store s);
                       h0 = store s @ [SkipNode_new height key]
                   in case Insert_splice h0 to_insert height nodes 0 [] of
                        Inl e \<Rightarrow> Some (Inl e)
                      | Inr (h', tr) \<Rightarrow>
                          Some (Inr (True, s\<lparr>store := h', size' := size' s + 1, rng := g'\<rparr>,
                                     tr))))))"

definition Insert ::
  "('k \<Rightarrow> 'k \<Rightarrow> bool) \<Rightarrow> ('g \<Rightarrow> nat \<times> 'g) \<Rightarrow> nat \<Rightarrow> ('k, 'g) SkipList \<Rightarrow> 'k
     \<Rightarrow> (fault + bool \<times> ('k, 'g) SkipList) option" where
  "Insert compare gen MaxHeight s key =
     (case Insert_traced compare gen MaxHeight s key of None \<Rightarrow> None
      | Some (Inl e) \<Rightarrow> Some (Inl e)
      | Some (Inr (b, s', tr)) \<Rightarrow> Some (Inr (b, s')))"

subsection \<open>Erase\<close>

text \<open>The inner \<open>while (true)\<close> of \<open>Erase\<close>; it also carries \<open>to_erase\<close>.\<close>

partial_function (option) Erase_walk ::
  "('k \<Rightarrow> 'k \<Rightarrow> bool) \<Rightarrow> 'k \<Rightarrow> 'k store \<Rightarrow> nat \<Rightarrow> addr \<Rightarrow> ptr \<Rightarrow> (fault + addr \<times> ptr) option" where
  "Erase_walk compare key h i cur_ptr to_erase =
     (case Next_at h cur_ptr i of Inl e \<Rightarrow> Some (Inl e)
      | Inr None \<Rightarrow> Some (Inr (cur_ptr, to_erase))
      | Inr (Some nxt_ptr) \<Rightarrow>
          (case Key_at h nxt_ptr of Inl e \<Rightarrow> Some (Inl e)
           | Inr nxt_key \<Rightarrow>
               if compare key nxt_key then Some (Inr (cur_ptr, to_erase))
               else if compare nxt_key key then Erase_walk compare key h i nxt_ptr to_erase
               else Some (Inr (cur_ptr, Some nxt_ptr))))"

declare Erase_walk.simps [code]

fun Erase_levels ::
  "('k \<Rightarrow> 'k \<Rightarrow> bool) \<Rightarrow> 'k \<Rightarrow> 'k store \<Rightarrow> nat \<Rightarrow> addr \<Rightarrow> ptr \<Rightarrow> addr list
     \<Rightarrow> (fault + addr list \<times> ptr) option" where
  "Erase_levels compare key h 0 cur_ptr to_erase nodes = Some (Inr (nodes, to_erase))"
| "Erase_levels compare key h (Suc i) cur_ptr to_erase nodes =
     (case Erase_walk compare key h i cur_ptr to_erase of None \<Rightarrow> None
      | Some (Inl e) \<Rightarrow> Some (Inl e)
      | Some (Inr (cur_ptr', to_erase')) \<Rightarrow>
          Erase_levels compare key h i cur_ptr' to_erase' (push_new cur_ptr' nodes))"

function Erase_links ::
  "'k store \<Rightarrow> addr \<Rightarrow> nat \<Rightarrow> addr \<Rightarrow> nat \<Rightarrow> fault + 'k store \<times> nat" where
  "Erase_links h to_erase height node level =
     (case Height_at h node of Inl e \<Rightarrow> Inl e
      | Inr node_height \<Rightarrow>
          if level < min height node_height then
            (case Next_at h to_erase level of Inl e \<Rightarrow> Inl e
             | Inr nxt_node \<Rightarrow>
                 (case SetNext_at h to_erase level None of Inl e \<Rightarrow> Inl e
                  | Inr h1 \<Rightarrow>
                      (case SetNext_at h1 node level nxt_node of Inl e \<Rightarrow> Inl e
                       | Inr h2 \<Rightarrow> Erase_links h2 to_erase height node (level + 1))))
          else Inr (h, level))"
  by pat_completeness auto
termination
  by (relation "measure (\<lambda>(h, to_erase, height, node, level). height - level)") auto

declare Erase_links.simps [simp del]

fun Erase_splice ::
  "'k store \<Rightarrow> addr \<Rightarrow> nat \<Rightarrow> addr list \<Rightarrow> nat \<Rightarrow> fault + 'k store" where
  "Erase_splice h to_erase height [] level =
     (if level < height then Inl EmptyStack else Inr h)"
| "Erase_splice h to_erase height (node # nodes) level =
     (if level < height then
        (case Erase_links h to_erase height node level of Inl e \<Rightarrow> Inl e
         | Inr (h', level') \<Rightarrow> Erase_splice h' to_erase height nodes level')
      else Inr h)"

definition Erase ::
  "('k \<Rightarrow> 'k \<Rightarrow> bool) \<Rightarrow> nat \<Rightarrow> ('k, 'g) SkipList \<Rightarrow> 'k
     \<Rightarrow> (fault + bool \<times> ('k, 'g) SkipList) option" where
  "Erase compare MaxHeight s key =
     (case Contains compare MaxHeight s key of None \<Rightarrow> None
      | Some (Inl e) \<Rightarrow> Some (Inl e)
      | Some (Inr False) \<Rightarrow> Some (Inr (False, s))
      | Some (Inr True) \<Rightarrow>
          (case Erase_levels compare key (store s) MaxHeight (header s) None [] of
             None \<Rightarrow> None
           | Some (Inl e) \<Rightarrow> Some (Inl e)
           | Some (Inr (nodes, None)) \<Rightarrow> Some (Inl NullDeref)
           | Some (Inr (nodes, Some to_erase)) \<Rightarrow>
               (case Height_at (store s) to_erase of Inl e \<Rightarrow> Some (Inl e)
                | Inr height \<Rightarrow>
                    (case Erase_splice (store s) to_erase height nodes 0 of
                       Inl e \<Rightarrow> Some (Inl e)
                     | Inr h' \<Rightarrow> Some (Inr (True, s\<lparr>store := h', size' := size' s - 1\<rparr>))))))"

subsection \<open>Drop and Clear\<close>

text \<open>
  \<open>Drop\<close> exists because of how nodes are released (its comment in the source): a node is
  destroyed when its last owning \<open>shared_ptr\<close> lets go of it, and the destructor of a
  node releases every reference its \<open>links_\<close> still hold, which may destroy further nodes
  from inside the first destructor. The model records what \<open>Drop\<close> does to the ownership:
  \<^item> \<open>Detached a i\<close>: \<open>std::move\<close> took the link of node \<open>a\<close> at level \<open>i\<close>; the slot is null
    afterwards;
  \<^item> \<open>Destroyed a bs\<close>: the last owner let go of node \<open>a\<close>, and its destructor found the
    references \<open>bs\<close> in its links. With \<open>bs = []\<close> the destructor releases nothing.
  The owners of a node are the link slots of the store that point to it, the member
  \<open>header_\<close> for the header, and the local \<open>curr\<close>. The store keeps a destroyed node; the
  model does not follow the releases of a destructor that found references, it records
  them in the event.
\<close>

datatype event = Detached addr nat | Destroyed addr "addr list"

definition referenced :: "'k store \<Rightarrow> addr \<Rightarrow> bool" where
  "referenced h a = (\<exists>n \<in> set h. Some a \<in> set (links n))"

definition held :: "'k SkipNode \<Rightarrow> addr list" where
  "held n = map the (filter (\<lambda>p. p \<noteq> None) (links n))"

text \<open>
  The \<open>while (curr != nullptr)\<close> of \<open>Drop\<close> at level \<open>i\<close>: \<open>curr = std::move(curr->links_[i])\<close>
  reads the link of the current node, resets it to null and steps to what was read;
  \<open>curr\<close> lets go of the node it leaves.
\<close>

definition linked :: "nat \<Rightarrow> 'k SkipNode \<Rightarrow> bool" where
  "linked i n = (i < length (links n) \<and> links n ! i \<noteq> None)"

function Drop_walk ::
  "addr \<Rightarrow> 'k store \<Rightarrow> nat \<Rightarrow> ptr \<Rightarrow> event list \<Rightarrow> fault + 'k store \<times> event list" where
  "Drop_walk hd_ptr h i cur ev =
     (case cur of None \<Rightarrow> Inr (h, ev)
      | Some a \<Rightarrow>
          (case node_at h a of Inl e \<Rightarrow> Inl e
           | Inr n \<Rightarrow>
               if i < length (links n) then
                 Drop_walk hd_ptr (h[a := n\<lparr>links := (links n)[i := None]\<rparr>]) i (links n ! i)
                   (ev @ Detached a i #
                      (if a = hd_ptr \<or> links n ! i = Some a
                          \<or> referenced (h[a := n\<lparr>links := (links n)[i := None]\<rparr>]) a
                       then []
                       else [Destroyed a (held (n\<lparr>links := (links n)[i := None]\<rparr>))]))
               else Inl LinkIndex))"
  by pat_completeness auto
termination
proof (relation "measure (\<lambda>(hd_ptr, h, i, cur, ev). 2 * length (filter (linked i) h)
                             + (case cur of None \<Rightarrow> 0 | Some _ \<Rightarrow> 1))", goal_cases)
  case 1
  then show ?case by simp
next
  case (2 hd_ptr h i cur ev a n)
  have upd: "a < length h \<Longrightarrow>
      length (filter P (h[a := x])) + (if P (h ! a) then 1 else 0) =
      length (filter P h) + (if P x then 1 else 0)" for P a x and h :: "'a SkipNode list"
  proof (induction h arbitrary: a)
    case Nil
    then show ?case by simp
  next
    case (Cons m h)
    then show ?case by (cases a) auto
  qed
  from 2 have a: "a < length h" and n: "n = h ! a"
    by (auto simp: node_at_def split: if_splits)
  have "\<not> linked i (n\<lparr>links := (links n)[i := None]\<rparr>)"
    using 2 by (simp add: linked_def)
  with upd [OF a, of "linked i" "n\<lparr>links := (links n)[i := None]\<rparr>"]
  have "length (filter (linked i) (h[a := n\<lparr>links := (links n)[i := None]\<rparr>]))
          + (if linked i n then 1 else 0) = length (filter (linked i) h)"
    using n by simp
  moreover have "links n ! i \<noteq> None \<Longrightarrow> linked i n"
    using 2 by (simp add: linked_def)
  ultimately show ?case
    using 2 by (cases "links n ! i") (auto split: if_splits)
qed

declare Drop_walk.simps [simp del]

text \<open>The \<open>for\<close> loop of \<open>Drop\<close> over the levels; \<open>std::move(header_->links_[i])\<close> takes
  the header's link into \<open>curr\<close> and resets it.\<close>

fun Drop_levels ::
  "'k store \<Rightarrow> addr \<Rightarrow> nat list \<Rightarrow> event list \<Rightarrow> fault + 'k store \<times> event list" where
  "Drop_levels h hd_ptr [] ev = Inr (h, ev)"
| "Drop_levels h hd_ptr (i # levels) ev =
     (case node_at h hd_ptr of Inl e \<Rightarrow> Inl e
      | Inr n \<Rightarrow>
          if i < length (links n) then
            (case Drop_walk hd_ptr (h[hd_ptr := n\<lparr>links := (links n)[i := None]\<rparr>]) i
                    (links n ! i) (ev @ [Detached hd_ptr i]) of
               Inl e \<Rightarrow> Inl e
             | Inr (h', ev') \<Rightarrow> Drop_levels h' hd_ptr levels ev')
          else Inl LinkIndex)"

text \<open>\<open>Drop\<close> and \<open>Clear\<close>, with the events of the teardown.\<close>

definition Drop_traced ::
  "nat \<Rightarrow> ('k, 'g) SkipList \<Rightarrow> fault + ('k, 'g) SkipList \<times> event list" where
  "Drop_traced MaxHeight s =
     (case Drop_levels (store s) (header s) [0..<MaxHeight] [] of Inl e \<Rightarrow> Inl e
      | Inr (h', ev) \<Rightarrow> Inr (s\<lparr>store := h'\<rparr>, ev))"

definition Clear_traced ::
  "nat \<Rightarrow> ('k, 'g) SkipList \<Rightarrow> fault + ('k, 'g) SkipList \<times> event list" where
  "Clear_traced MaxHeight s = Drop_traced MaxHeight (s\<lparr>size' := 0\<rparr>)"

definition Drop :: "nat \<Rightarrow> ('k, 'g) SkipList \<Rightarrow> fault + ('k, 'g) SkipList" where
  "Drop MaxHeight s =
     (case Drop_traced MaxHeight s of Inl e \<Rightarrow> Inl e | Inr (s', ev) \<Rightarrow> Inr s')"

definition Clear :: "nat \<Rightarrow> ('k, 'g) SkipList \<Rightarrow> fault + ('k, 'g) SkipList" where
  "Clear MaxHeight s = Drop MaxHeight (s\<lparr>size' := 0\<rparr>)"

subsection \<open>Histories of operations\<close>

datatype 'k op = OpInsert 'k | OpErase 'k | OpClear

definition apply_op ::
  "('k \<Rightarrow> 'k \<Rightarrow> bool) \<Rightarrow> ('g \<Rightarrow> nat \<times> 'g) \<Rightarrow> nat \<Rightarrow> ('k, 'g) SkipList \<Rightarrow> 'k op
     \<Rightarrow> (fault + ('k, 'g) SkipList) option" where
  "apply_op compare gen MaxHeight s x =
     (case x of
        OpInsert key \<Rightarrow>
          (case Insert compare gen MaxHeight s key of None \<Rightarrow> None
           | Some (Inl e) \<Rightarrow> Some (Inl e)
           | Some (Inr (b, s')) \<Rightarrow> Some (Inr s'))
      | OpErase key \<Rightarrow>
          (case Erase compare MaxHeight s key of None \<Rightarrow> None
           | Some (Inl e) \<Rightarrow> Some (Inl e)
           | Some (Inr (b, s')) \<Rightarrow> Some (Inr s'))
      | OpClear \<Rightarrow> Some (Clear MaxHeight s))"

fun run_ops ::
  "('k \<Rightarrow> 'k \<Rightarrow> bool) \<Rightarrow> ('g \<Rightarrow> nat \<times> 'g) \<Rightarrow> nat \<Rightarrow> ('k, 'g) SkipList \<Rightarrow> 'k op list
     \<Rightarrow> (fault + ('k, 'g) SkipList) option" where
  "run_ops compare gen MaxHeight s [] = Some (Inr s)"
| "run_ops compare gen MaxHeight s (x # xs) =
     (case apply_op compare gen MaxHeight s x of None \<Rightarrow> None
      | Some (Inl e) \<Rightarrow> Some (Inl e)
      | Some (Inr s') \<Rightarrow> run_ops compare gen MaxHeight s' xs)"

subsection \<open>Notions of the specification\<close>

text \<open>Two keys are equivalent when neither compares less than the other.\<close>

definition equiv :: "('k \<Rightarrow> 'k \<Rightarrow> bool) \<Rightarrow> 'k \<Rightarrow> 'k \<Rightarrow> bool" where
  "equiv compare a b = (\<not> compare a b \<and> \<not> compare b a)"

text \<open>The comparator is required to be a strict weak ordering.\<close>

definition strict_weak_order :: "('k \<Rightarrow> 'k \<Rightarrow> bool) \<Rightarrow> bool" where
  "strict_weak_order compare =
     ((\<forall>a. \<not> compare a a) \<and>
      (\<forall>a b c. compare a b \<longrightarrow> compare b c \<longrightarrow> compare a c) \<and>
      (\<forall>a b c. equiv compare a b \<longrightarrow> equiv compare b c \<longrightarrow> equiv compare a c))"

definition hgt :: "'k store \<Rightarrow> addr \<Rightarrow> nat" where
  "hgt h a = length (links (h ! a))"

definition lnk :: "'k store \<Rightarrow> addr \<Rightarrow> nat \<Rightarrow> ptr" where
  "lnk h a L = links (h ! a) ! L"

definition keyof :: "'k store \<Rightarrow> addr \<Rightarrow> 'k" where
  "keyof h a = nkey (h ! a)"

text \<open>The store after \<open>(*a).SetNext(L, q)\<close> with \<open>L\<close> in range.\<close>

definition set_link :: "'k store \<Rightarrow> addr \<Rightarrow> nat \<Rightarrow> ptr \<Rightarrow> 'k store" where
  "set_link h a L q = h[a := (h ! a)\<lparr>links := (links (h ! a))[L := q]\<rparr>]"

text \<open>
  \<open>chain h L p as\<close>: following the forward references of level \<open>L\<close> from the pointer \<open>p\<close>
  visits exactly the nodes \<open>as\<close>, in this order, and then reaches null.
\<close>

fun chain :: "'k store \<Rightarrow> nat \<Rightarrow> ptr \<Rightarrow> addr list \<Rightarrow> bool" where
  "chain h L p [] = (p = None)"
| "chain h L p (a # as) =
     (p = Some a \<and> a < length h \<and> L < hgt h a \<and> chain h L (lnk h a L) as)"

text \<open>The chain of level \<open>L\<close> that starts at the header.\<close>

definition level_chain :: "('k, 'g) SkipList \<Rightarrow> nat \<Rightarrow> addr list \<Rightarrow> bool" where
  "level_chain s L as = chain (store s) L (lnk (store s) (header s) L) as"

text \<open>\<open>lchain h L (a # as)\<close>: the node \<open>a\<close> has level \<open>L\<close> and the chain from its link is \<open>as\<close>.\<close>

fun lchain :: "'k store \<Rightarrow> nat \<Rightarrow> addr list \<Rightarrow> bool" where
  "lchain h L [] = False"
| "lchain h L (a # as) = (a < length h \<and> L < hgt h a \<and> chain h L (lnk h a L) as)"

definition lvl :: "'k store \<Rightarrow> nat \<Rightarrow> addr list \<Rightarrow> addr list" where
  "lvl h L ns = filter (\<lambda>a. L < hgt h a) ns"

text \<open>
  The invariant of the structure, relative to the list \<open>ns\<close> of the live nodes in key order:
  the header has \<open>MaxHeight\<close> links, the live nodes are distinct nodes of the store with
  between one and \<open>MaxHeight\<close> links, their keys ascend strictly, and the chain of each level
  consists of the live nodes that have this level.
\<close>

definition store_inv ::
  "('k \<Rightarrow> 'k \<Rightarrow> bool) \<Rightarrow> nat \<Rightarrow> 'k store \<Rightarrow> addr \<Rightarrow> addr list \<Rightarrow> bool" where
  "store_inv compare MaxHeight h hd_ptr ns =
     (hd_ptr < length h \<and> hgt h hd_ptr = MaxHeight \<and>
      hd_ptr \<notin> set ns \<and> distinct ns \<and>
      (\<forall>a \<in> set ns. a < length h \<and> 0 < hgt h a \<and> hgt h a \<le> MaxHeight) \<and>
      sorted_wrt compare (map (keyof h) ns) \<and>
      (\<forall>L < MaxHeight. lchain h L (hd_ptr # lvl h L ns)))"

definition skiplist_inv ::
  "('k \<Rightarrow> 'k \<Rightarrow> bool) \<Rightarrow> nat \<Rightarrow> ('k, 'g) SkipList \<Rightarrow> addr list \<Rightarrow> bool" where
  "skiplist_inv compare MaxHeight s ns =
     (store_inv compare MaxHeight (store s) (header s) ns \<and> size' s = length ns)"

text \<open>The situation of a scan for \<open>key\<close>: the live nodes are \<open>lo @ hi\<close>, the keys of
  \<open>lo\<close> are smaller than \<open>key\<close>, the keys of \<open>hi\<close> are not.\<close>

definition scan_ctx ::
  "('k \<Rightarrow> 'k \<Rightarrow> bool) \<Rightarrow> nat \<Rightarrow> 'k store \<Rightarrow> addr \<Rightarrow> 'k \<Rightarrow> addr list \<Rightarrow> addr list \<Rightarrow> bool" where
  "scan_ctx compare MaxHeight h hd_ptr key lo hi =
     (strict_weak_order compare \<and> store_inv compare MaxHeight h hd_ptr (lo @ hi) \<and>
      (\<forall>a \<in> set lo. compare (keyof h a) key) \<and>
      (\<forall>a \<in> set hi. \<not> compare (keyof h a) key))"

text \<open>The node before the position of a key at level \<open>L\<close>, where \<open>lo\<close> are the live nodes
  with smaller keys.\<close>

definition pred_at :: "'k store \<Rightarrow> addr \<Rightarrow> addr list \<Rightarrow> nat \<Rightarrow> addr" where
  "pred_at h hd_ptr lo L = last (hd_ptr # lvl h L lo)"

text \<open>At level \<open>L\<close> the scan meets a node of \<open>hi\<close> whose key is equivalent to \<open>key\<close>.\<close>

definition found_at :: "('k \<Rightarrow> 'k \<Rightarrow> bool) \<Rightarrow> 'k \<Rightarrow> 'k store \<Rightarrow> addr list \<Rightarrow> nat \<Rightarrow> bool" where
  "found_at compare key h hi L =
     (lvl h L hi \<noteq> [] \<and> \<not> compare key (keyof h (hd (lvl h L hi))))"

text \<open>The stack that the scans of \<open>Insert\<close> and \<open>Erase\<close> build from the nodes \<open>c L\<close>
  where they leave level \<open>L\<close>, for the levels \<open>ls\<close> (ascending, the lowest level is pushed last).\<close>

fun stack_of :: "(nat \<Rightarrow> addr) \<Rightarrow> nat list \<Rightarrow> addr list" where
  "stack_of c [] = []"
| "stack_of c (l # ls) = push_new (c l) (stack_of c ls)"

text \<open>
  What the splice loops need of the nodes \<open>c L\<close> recorded for the levels below \<open>M\<close>:
  \<open>c L\<close> has level \<open>L\<close>, and it is the recorded node of every level from \<open>L\<close> up to its
  own height (\<open>hg\<close> gives the heights).
\<close>

definition banded :: "(addr \<Rightarrow> nat) \<Rightarrow> nat \<Rightarrow> (nat \<Rightarrow> addr) \<Rightarrow> bool" where
  "banded hg M c =
     (\<forall>l < M. l < hg (c l) \<and> hg (c l) \<le> M \<and> (\<forall>j. l \<le> j \<and> j < hg (c l) \<longrightarrow> c j = c l))"

text \<open>
  The store \<open>h'\<close> when the new node \<open>t\<close> has been spliced in at the levels below \<open>level\<close>,
  starting from the store \<open>h0\<close>: at such a level \<open>L\<close> the node \<open>c L\<close> points to \<open>t\<close> and
  \<open>t\<close> points to the former successor of \<open>c L\<close>; nothing else differs.
\<close>

definition spliced :: "'k store \<Rightarrow> (nat \<Rightarrow> addr) \<Rightarrow> addr \<Rightarrow> nat \<Rightarrow> 'k store \<Rightarrow> bool" where
  "spliced h0 c t level h' =
     (length h' = length h0 \<and>
      (\<forall>a. hgt h' a = hgt h0 a \<and> keyof h' a = keyof h0 a) \<and>
      (\<forall>a L. lnk h' a L =
         (if L < level \<and> a = t then lnk h0 (c L) L
          else if L < level \<and> a = c L then Some t
          else lnk h0 a L)))"

text \<open>
  The store \<open>h'\<close> when the node \<open>e\<close> has been bypassed at the levels below \<open>level\<close>: at such
  a level \<open>L\<close> the node \<open>c L\<close> points to the former successor of \<open>e\<close>, and the link of
  \<open>e\<close> is null.
\<close>

definition unspliced :: "'k store \<Rightarrow> (nat \<Rightarrow> addr) \<Rightarrow> addr \<Rightarrow> nat \<Rightarrow> 'k store \<Rightarrow> bool" where
  "unspliced h0 c e level h' =
     (length h' = length h0 \<and>
      (\<forall>a. hgt h' a = hgt h0 a \<and> keyof h' a = keyof h0 a) \<and>
      (\<forall>a L. lnk h' a L =
         (if L < level \<and> a = e then None
          else if L < level \<and> a = c L then lnk h0 e L
          else lnk h0 a L)))"

text \<open>The \<open>SetNext\<close> calls of a splice of \<open>t\<close> at the levels \<open>ls\<close>, as the source orders them.\<close>

definition splice_calls :: "'k store \<Rightarrow> (nat \<Rightarrow> addr) \<Rightarrow> addr \<Rightarrow> nat list \<Rightarrow> call list" where
  "splice_calls h0 c t ls =
     concat (map (\<lambda>l. [SetNextCall (c l) l (Some t), SetNextCall t l (lnk h0 (c l) l)]) ls)"

text \<open>
  Modelled from the spec: the set of live keys after a history, as the spec describes the
  operations (section 4.4: a key equivalent to a live key is rejected; section 4.5: erase
  removes the matching key; section 4.6: clear removes all).
\<close>

fun spec_step :: "('k \<Rightarrow> 'k \<Rightarrow> bool) \<Rightarrow> 'k list \<Rightarrow> 'k op \<Rightarrow> 'k list" where
  "spec_step compare ks (OpInsert key) =
     (if \<exists>x \<in> set ks. equiv compare key x then ks else key # ks)"
| "spec_step compare ks (OpErase key) = filter (\<lambda>x. \<not> equiv compare key x) ks"
| "spec_step compare ks OpClear = []"

definition spec_live :: "('k \<Rightarrow> 'k \<Rightarrow> bool) \<Rightarrow> 'k op list \<Rightarrow> 'k list" where
  "spec_live compare xs = foldl (spec_step compare) [] xs"

text \<open>The first \<open>n\<close> numbers that the generator returns from state \<open>g\<close>.\<close>

fun draws :: "('g \<Rightarrow> nat \<times> 'g) \<Rightarrow> 'g \<Rightarrow> nat \<Rightarrow> nat list" where
  "draws gen g 0 = []"
| "draws gen g (Suc n) = (case gen g of (r, g') \<Rightarrow> r # draws gen g' n)"

text \<open>Node \<open>a\<close> has an owner among the link slots of the levels other than \<open>i\<close>.\<close>

definition elsewhere :: "'k store \<Rightarrow> nat \<Rightarrow> addr \<Rightarrow> bool" where
  "elsewhere h i a = (\<exists>b < length h. \<exists>L < hgt h b. L \<noteq> i \<and> lnk h b L = Some a)"

text \<open>The events of a walk of \<open>Drop\<close> at level \<open>i\<close> along the nodes \<open>as\<close>, in the store \<open>h\<close> at
  the start of the walk: each node is detached, and destroyed unless it has another owner.\<close>

definition walk_events :: "'k store \<Rightarrow> nat \<Rightarrow> addr list \<Rightarrow> event list" where
  "walk_events h i as =
     concat (map (\<lambda>a. Detached a i #
                    (if elsewhere h i a then []
                     else [Destroyed a (held ((h ! a)\<lparr>links := (links (h ! a))[i := None]\<rparr>))]))
               as)"

text \<open>The nodes of the store that are not live hold no reference.\<close>

definition garbage_null :: "'k store \<Rightarrow> addr \<Rightarrow> addr list \<Rightarrow> bool" where
  "garbage_null h hd_ptr ns =
     (\<forall>b < length h. b \<notin> set (hd_ptr # ns) \<longrightarrow> (\<forall>L < hgt h b. lnk h b L = None))"

text \<open>
  The teardown of a container with the live nodes \<open>ns\<close>, level by level from level 0: the
  link of the header is detached, then the link of each node of the chain in its order;
  a node is destroyed right after the detachment at its highest level, holding no
  reference.
\<close>

definition level_events :: "'k store \<Rightarrow> addr \<Rightarrow> addr list \<Rightarrow> nat \<Rightarrow> event list" where
  "level_events h hd_ptr ns L =
     Detached hd_ptr L #
     concat (map (\<lambda>a. Detached a L # (if hgt h a = Suc L then [Destroyed a []] else []))
               (lvl h L ns))"

definition teardown_events :: "'k store \<Rightarrow> addr \<Rightarrow> addr list \<Rightarrow> nat \<Rightarrow> event list" where
  "teardown_events h hd_ptr ns MaxHeight =
     concat (map (level_events h hd_ptr ns) [0..<MaxHeight])"

text \<open>\<open>Insert\<close> for each key of a list in turn, with the results of the calls.\<close>

fun Insert_all ::
  "('k \<Rightarrow> 'k \<Rightarrow> bool) \<Rightarrow> ('g \<Rightarrow> nat \<times> 'g) \<Rightarrow> nat \<Rightarrow> ('k, 'g) SkipList \<Rightarrow> 'k list
     \<Rightarrow> (fault + bool list \<times> ('k, 'g) SkipList) option" where
  "Insert_all compare gen MaxHeight s [] = Some (Inr ([], s))"
| "Insert_all compare gen MaxHeight s (key # keys) =
     (case Insert compare gen MaxHeight s key of None \<Rightarrow> None
      | Some (Inl e) \<Rightarrow> Some (Inl e)
      | Some (Inr (b, s')) \<Rightarrow>
          (case Insert_all compare gen MaxHeight s' keys of None \<Rightarrow> None
           | Some (Inl e) \<Rightarrow> Some (Inl e)
           | Some (Inr (bs, s'')) \<Rightarrow> Some (Inr (b # bs, s''))))"

text \<open>
  Modelled from the spec: the order of the two \<open>SetNext\<close> calls of a level as section 4.4
  of the spec states it, first the new node's forward reference, then the predecessor's.
\<close>

definition spec_splice_calls ::
  "'k store \<Rightarrow> (nat \<Rightarrow> addr) \<Rightarrow> addr \<Rightarrow> nat list \<Rightarrow> call list" where
  "spec_splice_calls h0 c t ls =
     concat (map (\<lambda>l. [SetNextCall t l (lnk h0 (c l) l), SetNextCall (c l) l (Some t)]) ls)"

subsection \<open>A small example\<close>

text \<open>A generator that counts: it returns its state and steps to the next number.\<close>

definition ex_gen :: "nat \<Rightarrow> nat \<times> nat" where
  "ex_gen g = (g, Suc g)"

text \<open>The container with \<open>MaxHeight = 2\<close> after \<open>Insert(5)\<close> and \<open>Insert(3)\<close>: the node of
  5 got two levels, the node of 3 one.\<close>

definition ex_list :: "(int, nat) SkipList" where
  "ex_list =
     \<lparr>header = 0,
        store = [\<lparr>links = [Some 2, Some 1], nkey = 0\<rparr>,
                 \<lparr>links = [None, None], nkey = 5\<rparr>,
                 \<lparr>links = [Some 1], nkey = 3\<rparr>],
        size' = 2, rng = 2\<rparr>"

section \<open>Verification\<close>

subsection \<open>Strict weak orderings\<close>

lemma swo_irrefl: "strict_weak_order cmp \<Longrightarrow> \<not> cmp a a"
  by (simp add: strict_weak_order_def)

lemma swo_trans: "strict_weak_order cmp \<Longrightarrow> cmp a b \<Longrightarrow> cmp b c \<Longrightarrow> cmp a c"
  unfolding strict_weak_order_def by blast

lemma swo_asym: "strict_weak_order cmp \<Longrightarrow> cmp a b \<Longrightarrow> \<not> cmp b a"
  using swo_irrefl swo_trans by metis

lemma swo_negtrans:
  assumes "strict_weak_order cmp" "\<not> cmp a b" "\<not> cmp b c"
  shows "\<not> cmp a c"
proof
  assume ac: "cmp a c"
  have "\<not> cmp b a" using assms ac swo_trans by metis
  then have ab: "equiv cmp a b" using assms by (simp add: equiv_def)
  have "\<not> cmp c b" using assms ac swo_trans by metis
  then have bc: "equiv cmp b c" using assms by (simp add: equiv_def)
  have "equiv cmp a c" using assms(1) ab bc unfolding strict_weak_order_def by blast
  then show False using ac by (simp add: equiv_def)
qed

lemma swo_less_not_less:
  "strict_weak_order cmp \<Longrightarrow> cmp a b \<Longrightarrow> \<not> cmp c b \<Longrightarrow> cmp a c"
  using swo_negtrans by metis

lemma swo_not_less_less:
  "strict_weak_order cmp \<Longrightarrow> \<not> cmp b a \<Longrightarrow> cmp b c \<Longrightarrow> cmp a c"
  using swo_negtrans by metis

subsection \<open>Access to the store\<close>

lemma Next_at_valid: "a < length h \<Longrightarrow> L < hgt h a \<Longrightarrow> Next_at h a L = Inr (lnk h a L)"
  by (simp add: Next_at_def node_at_def Next_def hgt_def lnk_def)

lemma Key_at_valid: "a < length h \<Longrightarrow> Key_at h a = Inr (keyof h a)"
  by (simp add: Key_at_def node_at_def Key_def keyof_def)

lemma Height_at_valid: "a < length h \<Longrightarrow> Height_at h a = Inr (hgt h a)"
  by (simp add: Height_at_def node_at_def Height_def hgt_def)

lemma SetNext_at_valid:
  "a < length h \<Longrightarrow> L < hgt h a \<Longrightarrow> SetNext_at h a L q = Inr (set_link h a L q)"
  by (simp add: SetNext_at_def node_at_def SetNext_def hgt_def set_link_def)

lemma length_set_link [simp]: "length (set_link h a L q) = length h"
  by (simp add: set_link_def)

lemma hgt_set_link [simp]: "hgt (set_link h a L q) b = hgt h b"
  by (cases "a < length h"; cases "a = b") (simp_all add: set_link_def hgt_def list_update_beyond)

lemma keyof_set_link [simp]: "keyof (set_link h a L q) b = keyof h b"
  by (cases "a < length h"; cases "a = b") (simp_all add: set_link_def keyof_def list_update_beyond)

lemma lnk_set_link:
  "a < length h \<Longrightarrow> L < hgt h a \<Longrightarrow>
   lnk (set_link h a L q) b L' = (if b = a \<and> L' = L then q else lnk h b L')"
  by (cases "a = b"; cases "L = L'") (simp_all add: set_link_def lnk_def hgt_def)

subsection \<open>Chains\<close>

lemma chain_unique: "chain h L p as \<Longrightarrow> chain h L p bs \<Longrightarrow> as = bs"
proof (induction as arbitrary: p bs)
  case Nil
  then show ?case by (cases bs) auto
next
  case (Cons a as)
  then show ?case by (cases bs) auto
qed

lemma chain_cong:
  assumes "length h' = length h"
    and "\<forall>a \<in> set as. hgt h' a = hgt h a \<and> lnk h' a L = lnk h a L"
  shows "chain h' L p as = chain h L p as"
  using assms(2)
proof (induction as arbitrary: p)
  case Nil
  then show ?case by simp
next
  case (Cons a as)
  then show ?case using assms(1) by auto
qed

lemma lchain_suffix: "lchain h L (xs @ a # ys) \<Longrightarrow> lchain h L (a # ys)"
proof (induction xs arbitrary: a ys)
  case Nil
  then show ?case by simp
next
  case (Cons x xs)
  have "lchain h L (xs @ a # ys)"
    using Cons.prems by (cases xs) simp_all
  then show ?case by (rule Cons.IH)
qed

lemma lchain_valid: "lchain h L as \<Longrightarrow> a \<in> set as \<Longrightarrow> a < length h \<and> L < hgt h a"
proof (induction as)
  case Nil
  then show ?case by simp
next
  case (Cons x xs)
  then show ?case by (cases xs) auto
qed

subsection \<open>The walks along one level\<close>

lemma Insert_walk_chain:
  assumes "lchain h L (cur # mid @ rest)"
    and "\<forall>b \<in> set mid. \<not> cmp key (keyof h b)"
    and "rest \<noteq> [] \<longrightarrow> cmp key (keyof h (hd rest))"
  shows "Insert_walk cmp key h L cur = Some (Inr (last (cur # mid)))"
  using assms
proof (induction mid arbitrary: cur)
  case Nil
  then show ?case
    by (cases rest) (simp_all add: Insert_walk.simps [of cmp key h L cur] Next_at_valid Key_at_valid)
next
  case (Cons b mid)
  from Cons.prems have "Insert_walk cmp key h L cur = Insert_walk cmp key h L b"
    by (simp add: Insert_walk.simps [of cmp key h L cur] Next_at_valid Key_at_valid)
  moreover have "Insert_walk cmp key h L b = Some (Inr (last (b # mid)))"
    using Cons.prems by (intro Cons.IH) auto
  ultimately show ?case by simp
qed

lemma Contains_walk_chain:
  assumes "lchain h L (cur # mid @ rest)"
    and "\<forall>b \<in> set mid. \<not> cmp key (keyof h b) \<and> cmp (keyof h b) key"
    and "rest \<noteq> [] \<longrightarrow> \<not> cmp (keyof h (hd rest)) key"
  shows "Contains_walk cmp key h L cur =
           Some (Inr (rest \<noteq> [] \<and> \<not> cmp key (keyof h (hd rest)), last (cur # mid)))"
  using assms
proof (induction mid arbitrary: cur)
  case Nil
  then show ?case
    by (cases rest) (simp_all add: Contains_walk.simps [of cmp key h L cur] Next_at_valid Key_at_valid)
next
  case (Cons b mid)
  from Cons.prems have "Contains_walk cmp key h L cur = Contains_walk cmp key h L b"
    by (simp add: Contains_walk.simps [of cmp key h L cur] Next_at_valid Key_at_valid)
  moreover have "Contains_walk cmp key h L b =
      Some (Inr (rest \<noteq> [] \<and> \<not> cmp key (keyof h (hd rest)), last (b # mid)))"
    using Cons.prems by (intro Cons.IH) auto
  ultimately show ?case by simp
qed

lemma Erase_walk_chain:
  assumes "lchain h L (cur # mid @ rest)"
    and "\<forall>b \<in> set mid. \<not> cmp key (keyof h b) \<and> cmp (keyof h b) key"
    and "rest \<noteq> [] \<longrightarrow> \<not> cmp (keyof h (hd rest)) key"
  shows "Erase_walk cmp key h L cur te =
           Some (Inr (last (cur # mid),
                      if rest \<noteq> [] \<and> \<not> cmp key (keyof h (hd rest)) then Some (hd rest) else te))"
  using assms
proof (induction mid arbitrary: cur)
  case Nil
  then show ?case
    by (cases rest) (simp_all add: Erase_walk.simps [of cmp key h L cur] Next_at_valid Key_at_valid)
next
  case (Cons b mid)
  from Cons.prems have "Erase_walk cmp key h L cur te = Erase_walk cmp key h L b te"
    by (simp add: Erase_walk.simps [of cmp key h L cur] Next_at_valid Key_at_valid)
  moreover have "Erase_walk cmp key h L b te =
      Some (Inr (last (b # mid),
                 if rest \<noteq> [] \<and> \<not> cmp key (keyof h (hd rest)) then Some (hd rest) else te))"
    using Cons.prems by (intro Cons.IH) auto
  ultimately show ?case by simp
qed

subsection \<open>Splitting the live nodes at a key\<close>

lemma sorted_split:
  assumes "strict_weak_order cmp" "sorted_wrt cmp (map f ns)"
  shows "\<exists>lo hi. ns = lo @ hi \<and> (\<forall>a \<in> set lo. cmp (f a) key) \<and> (\<forall>a \<in> set hi. \<not> cmp (f a) key)"
  using assms(2)
proof (induction ns)
  case Nil
  then show ?case by simp
next
  case (Cons a ns)
  show ?case
  proof (cases "cmp (f a) key")
    case True
    from Cons obtain lo hi where
      "ns = lo @ hi" "\<forall>a \<in> set lo. cmp (f a) key" "\<forall>a \<in> set hi. \<not> cmp (f a) key"
      by auto
    with True have "a # ns = (a # lo) @ hi \<and> (\<forall>a \<in> set (a # lo). cmp (f a) key)
        \<and> (\<forall>a \<in> set hi. \<not> cmp (f a) key)"
      by simp
    then show ?thesis by blast
  next
    case False
    have "\<not> cmp (f b) key" if "b \<in> set ns" for b
    proof
      assume "cmp (f b) key"
      moreover have "cmp (f a) (f b)" using Cons.prems that by auto
      ultimately show False using False swo_trans [OF assms(1)] by blast
    qed
    with False have "a # ns = [] @ (a # ns) \<and> (\<forall>a \<in> set []. cmp (f a) key)
        \<and> (\<forall>b \<in> set (a # ns). \<not> cmp (f b) key)"
      by simp
    then show ?thesis by blast
  qed
qed

lemma last_filter_decomp:
  assumes "\<And>x. P x \<Longrightarrow> Q x"
  shows "\<exists>pre mid. a # filter Q xs = pre @ last (a # filter P xs) # mid"
proof (induction xs rule: rev_induct)
  case Nil
  have "a # filter Q [] = [] @ last (a # filter P []) # []" by simp
  then show ?case by blast
next
  case (snoc x xs)
  then obtain pre mid where d: "a # filter Q xs = pre @ last (a # filter P xs) # mid"
    by blast
  show ?case
  proof (cases "P x")
    case True
    then have "a # filter Q (xs @ [x]) = (a # filter Q xs) @ last (a # filter P (xs @ [x])) # []"
      using assms by simp
    then show ?thesis by blast
  next
    case False
    then have "a # filter Q (xs @ [x]) =
        pre @ last (a # filter P (xs @ [x])) # (mid @ (if Q x then [x] else []))"
      using d by simp
    then show ?thesis by blast
  qed
qed

subsection \<open>The predecessors of a key\<close>

lemma scan_ctxD:
  assumes "scan_ctx cmp M h hp key lo hi"
  shows "strict_weak_order cmp" "store_inv cmp M h hp (lo @ hi)"
    "\<And>a. a \<in> set lo \<Longrightarrow> cmp (keyof h a) key"
    "\<And>a. a \<in> set lo \<Longrightarrow> \<not> cmp key (keyof h a)"
    "\<And>a. a \<in> set hi \<Longrightarrow> \<not> cmp (keyof h a) key"
    "hp < length h" "hgt h hp = M"
    "\<And>a. a \<in> set (lo @ hi) \<Longrightarrow> a < length h \<and> 0 < hgt h a \<and> hgt h a \<le> M \<and> a \<noteq> hp"
    "distinct (lo @ hi)"
    "\<And>L. L < M \<Longrightarrow> lchain h L (hp # lvl h L lo @ lvl h L hi)"
  using assms swo_asym [of cmp]
  by (auto simp: scan_ctx_def store_inv_def lvl_def)

lemma pred_at_top:
  assumes "scan_ctx cmp M h hp key lo hi"
  shows "pred_at h hp lo M = hp"
proof -
  have "\<not> M < hgt h a" if "a \<in> set lo" for a
    using scan_ctxD(8) [OF assms, of a] that by simp
  then have "lvl h M lo = []"
    by (simp add: lvl_def filter_empty_conv)
  then show ?thesis by (simp add: pred_at_def)
qed

lemma pred_at_cases:
  "pred_at h hp lo L = hp \<and> lvl h L lo = [] \<or>
   pred_at h hp lo L \<in> set lo \<and> L < hgt h (pred_at h hp lo L)"
proof (cases "lvl h L lo = []")
  case True
  then show ?thesis by (simp add: pred_at_def)
next
  case False
  then have "last (lvl h L lo) \<in> set (lvl h L lo)" by simp
  then show ?thesis using False by (auto simp: pred_at_def lvl_def)
qed

lemma pred_at_valid:
  assumes "scan_ctx cmp M h hp key lo hi" "L < M"
  shows "pred_at h hp lo L < length h" "L < hgt h (pred_at h hp lo L)"
  using pred_at_cases [of h hp lo L] scan_ctxD(6,7,8) [OF assms(1)] assms(2)
  by auto

lemma pred_step:
  assumes "scan_ctx cmp M h hp key lo hi" "L < M"
  shows "\<exists>mid. lchain h L (pred_at h hp lo (Suc L) # mid @ lvl h L hi) \<and> set mid \<subseteq> set lo
            \<and> last (pred_at h hp lo (Suc L) # mid) = pred_at h hp lo L"
proof -
  obtain pre mid where
    d: "hp # lvl h L lo = pre @ pred_at h hp lo (Suc L) # mid"
    using last_filter_decomp [of "\<lambda>a. Suc L < hgt h a" "\<lambda>a. L < hgt h a" hp lo]
    by (auto simp: pred_at_def lvl_def)
  have "lchain h L (hp # lvl h L lo @ lvl h L hi)"
    using scan_ctxD(10) [OF assms] .
  then have "lchain h L (pre @ pred_at h hp lo (Suc L) # mid @ lvl h L hi)"
    using d by (metis append_Cons append_assoc)
  then have 1: "lchain h L (pred_at h hp lo (Suc L) # mid @ lvl h L hi)"
    by (rule lchain_suffix)
  have "set mid \<subseteq> set (hp # lvl h L lo)" using d by auto
  moreover have "hp \<notin> set mid"
  proof
    assume "hp \<in> set mid"
    moreover have "distinct (hp # lvl h L lo)"
      using scan_ctxD(8,9) [OF assms(1)] by (auto simp: lvl_def)
    ultimately show False using d by (cases pre) auto
  qed
  ultimately have 2: "set mid \<subseteq> set lo" by (auto simp: lvl_def)
  have "last (pred_at h hp lo (Suc L) # mid) = last (hp # lvl h L lo)"
    using d by simp
  then have 3: "last (pred_at h hp lo (Suc L) # mid) = pred_at h hp lo L"
    by (simp add: pred_at_def)
  from 1 2 3 show ?thesis by blast
qed

subsection \<open>The scans over all levels\<close>

lemma upt_step: "n < M \<Longrightarrow> [n..<M] = n # [Suc n..<M]"
  by (simp add: upt_conv_Cons)

lemma Insert_walk_pred:
  assumes "scan_ctx cmp M h hp key lo hi" "L < M" "\<forall>a \<in> set hi. cmp key (keyof h a)"
  shows "Insert_walk cmp key h L (pred_at h hp lo (Suc L)) = Some (Inr (pred_at h hp lo L))"
proof -
  obtain mid where m: "lchain h L (pred_at h hp lo (Suc L) # mid @ lvl h L hi)"
    "set mid \<subseteq> set lo" "last (pred_at h hp lo (Suc L) # mid) = pred_at h hp lo L"
    using pred_step [OF assms(1,2)] by blast
  have "\<forall>b \<in> set mid. \<not> cmp key (keyof h b)"
    using m(2) scan_ctxD(4) [OF assms(1)] by blast
  moreover have "lvl h L hi \<noteq> [] \<longrightarrow> cmp key (keyof h (hd (lvl h L hi)))"
  proof
    assume "lvl h L hi \<noteq> []"
    then have "hd (lvl h L hi) \<in> set (lvl h L hi)" by simp
    then show "cmp key (keyof h (hd (lvl h L hi)))" using assms(3) by (simp add: lvl_def)
  qed
  ultimately show ?thesis
    using Insert_walk_chain [OF m(1)] m(3) by simp
qed

lemma Insert_levels_pred:
  assumes "scan_ctx cmp M h hp key lo hi" "\<forall>a \<in> set hi. cmp key (keyof h a)" "n \<le> M"
  shows "Insert_levels cmp key h n (pred_at h hp lo n) (stack_of (pred_at h hp lo) [n..<M]) =
           Some (Inr (stack_of (pred_at h hp lo) [0..<M]))"
  using assms(3)
proof (induction n)
  case 0
  then show ?case by simp
next
  case (Suc n)
  then have "n < M" by simp
  then show ?case
    using Suc Insert_walk_pred [OF assms(1) \<open>n < M\<close> assms(2)]
    by (simp add: upt_step [of n M])
qed

lemma Contains_walk_pred:
  assumes "scan_ctx cmp M h hp key lo hi" "L < M"
  shows "Contains_walk cmp key h L (pred_at h hp lo (Suc L)) =
           Some (Inr (found_at cmp key h hi L, pred_at h hp lo L))"
proof -
  obtain mid where m: "lchain h L (pred_at h hp lo (Suc L) # mid @ lvl h L hi)"
    "set mid \<subseteq> set lo" "last (pred_at h hp lo (Suc L) # mid) = pred_at h hp lo L"
    using pred_step [OF assms(1,2)] by blast
  have "\<forall>b \<in> set mid. \<not> cmp key (keyof h b) \<and> cmp (keyof h b) key"
    using m(2) scan_ctxD(3,4) [OF assms(1)] by blast
  moreover have "lvl h L hi \<noteq> [] \<longrightarrow> \<not> cmp (keyof h (hd (lvl h L hi))) key"
  proof
    assume "lvl h L hi \<noteq> []"
    then have "hd (lvl h L hi) \<in> set (lvl h L hi)" by simp
    then show "\<not> cmp (keyof h (hd (lvl h L hi))) key"
      using scan_ctxD(5) [OF assms(1)] by (simp add: lvl_def)
  qed
  ultimately show ?thesis
    using Contains_walk_chain [OF m(1)] m(3) by (simp add: found_at_def)
qed

lemma Contains_levels_pred:
  assumes "scan_ctx cmp M h hp key lo hi" "n \<le> M"
  shows "Contains_levels cmp key h n (pred_at h hp lo n) =
           Some (Inr (\<exists>L < n. found_at cmp key h hi L))"
  using assms(2)
proof (induction n)
  case 0
  then show ?case by simp
next
  case (Suc n)
  then have "n < M" by simp
  show ?case
  proof (cases "found_at cmp key h hi n")
    case True
    then show ?thesis
      using Contains_walk_pred [OF assms(1) \<open>n < M\<close>] by auto
  next
    case False
    then have "(\<exists>L < Suc n. found_at cmp key h hi L) = (\<exists>L < n. found_at cmp key h hi L)"
      using less_Suc_eq by auto
    then show ?thesis
      using False Suc Contains_walk_pred [OF assms(1) \<open>n < M\<close>] by simp
  qed
qed

subsection \<open>What Contains returns\<close>

lemma hd_lvl_in: "lvl h L xs \<noteq> [] \<Longrightarrow> hd (lvl h L xs) \<in> set xs"
  unfolding lvl_def by (metis filter_is_subset hd_in_set subsetD)

lemma scan_ctx_exists:
  assumes "strict_weak_order cmp" "store_inv cmp M h hp ns"
  shows "\<exists>lo hi. ns = lo @ hi \<and> scan_ctx cmp M h hp key lo hi"
proof -
  have "sorted_wrt cmp (map (keyof h) ns)"
    using assms(2) by (simp add: store_inv_def)
  from sorted_split [OF assms(1) this, of key] obtain lo hi where
    "ns = lo @ hi" "\<forall>a \<in> set lo. cmp (keyof h a) key" "\<forall>a \<in> set hi. \<not> cmp (keyof h a) key"
    by blast
  then show ?thesis using assms by (auto simp: scan_ctx_def)
qed

lemma lvl_zero:
  assumes "scan_ctx cmp M h hp key lo hi"
  shows "lvl h 0 hi = hi" "lvl h 0 lo = lo"
  using scan_ctxD(8) [OF assms] by (simp_all add: lvl_def)

lemma hi_sorted:
  assumes "scan_ctx cmp M h hp key lo (e # hi')" "a \<in> set hi'"
  shows "cmp (keyof h e) (keyof h a)"
  using scan_ctxD(2) [OF assms(1)] assms(2)
  by (auto simp: store_inv_def sorted_wrt_append)

lemma found_at_iff:
  assumes "scan_ctx cmp M h hp key lo hi"
  shows "(\<exists>L < M. found_at cmp key h hi L) = (\<exists>a \<in> set (lo @ hi). equiv cmp key (keyof h a))"
proof
  assume "\<exists>L < M. found_at cmp key h hi L"
  then obtain L where L: "lvl h L hi \<noteq> []" "\<not> cmp key (keyof h (hd (lvl h L hi)))"
    by (auto simp: found_at_def)
  then have "hd (lvl h L hi) \<in> set (lvl h L hi)" by simp
  then have "hd (lvl h L hi) \<in> set hi" by (simp add: lvl_def)
  then show "\<exists>a \<in> set (lo @ hi). equiv cmp key (keyof h a)"
    using L(2) scan_ctxD(5) [OF assms] by (auto simp: equiv_def)
next
  assume "\<exists>a \<in> set (lo @ hi). equiv cmp key (keyof h a)"
  then obtain a where a: "a \<in> set (lo @ hi)" "equiv cmp key (keyof h a)" by blast
  then have "a \<in> set hi"
    using scan_ctxD(3) [OF assms] by (auto simp: equiv_def)
  then obtain e hi' where hi: "hi = e # hi'" by (cases hi) auto
  have "\<not> cmp key (keyof h e)"
  proof (cases "a = e")
    case True
    then show ?thesis using a(2) by (simp add: equiv_def)
  next
    case False
    then have "cmp (keyof h e) (keyof h a)"
      using hi_sorted [of cmp M h hp key lo e hi' a] assms hi \<open>a \<in> set hi\<close> by simp
    then show ?thesis
      using a(2) swo_trans [OF scan_ctxD(1) [OF assms]] by (auto simp: equiv_def)
  qed
  then have "found_at cmp key h hi 0"
    using hi lvl_zero(1) [OF assms] by (simp add: found_at_def)
  moreover have "0 < M"
    using scan_ctxD(8) [OF assms, of a] a(1) by simp
  ultimately show "\<exists>L < M. found_at cmp key h hi L" by blast
qed

lemma Contains_store_inv:
  assumes "strict_weak_order cmp" "store_inv cmp M (store s) (header s) ns"
  shows "Contains cmp M s key = Some (Inr (\<exists>a \<in> set ns. equiv cmp key (keyof (store s) a)))"
proof -
  obtain lo hi where c: "ns = lo @ hi" "scan_ctx cmp M (store s) (header s) key lo hi"
    using scan_ctx_exists [OF assms] by blast
  show ?thesis
    using Contains_levels_pred [OF c(2), of M] pred_at_top [OF c(2)] found_at_iff [OF c(2)] c(1)
    by (simp add: Contains_def)
qed

subsection \<open>The scan of Erase\<close>

lemma found_at_hd:
  assumes "scan_ctx cmp M h hp key lo (e # hi')" "\<forall>a \<in> set hi'. cmp key (keyof h a)"
    and "found_at cmp key h (e # hi') L"
  shows "hd (lvl h L (e # hi')) = e"
proof (rule ccontr)
  assume n: "hd (lvl h L (e # hi')) \<noteq> e"
  from assms(3) have "lvl h L (e # hi') \<noteq> []"
    by (simp add: found_at_def)
  then have "hd (lvl h L (e # hi')) \<in> set (e # hi')"
    by (rule hd_lvl_in)
  then have "hd (lvl h L (e # hi')) \<in> set hi'" using n by simp
  then show False using assms(2,3) by (simp add: found_at_def)
qed

lemma Erase_walk_pred:
  assumes "scan_ctx cmp M h hp key lo (e # hi')" "\<forall>a \<in> set hi'. cmp key (keyof h a)" "L < M"
  shows "Erase_walk cmp key h L (pred_at h hp lo (Suc L)) te =
           Some (Inr (pred_at h hp lo L, if found_at cmp key h (e # hi') L then Some e else te))"
proof -
  obtain mid where m: "lchain h L (pred_at h hp lo (Suc L) # mid @ lvl h L (e # hi'))"
    "set mid \<subseteq> set lo" "last (pred_at h hp lo (Suc L) # mid) = pred_at h hp lo L"
    using pred_step [OF assms(1,3)] by blast
  have "\<forall>b \<in> set mid. \<not> cmp key (keyof h b) \<and> cmp (keyof h b) key"
    using m(2) scan_ctxD(3,4) [OF assms(1)] by blast
  moreover have "lvl h L (e # hi') \<noteq> [] \<longrightarrow> \<not> cmp (keyof h (hd (lvl h L (e # hi')))) key"
  proof
    assume "lvl h L (e # hi') \<noteq> []"
    then have "hd (lvl h L (e # hi')) \<in> set (e # hi')" by (rule hd_lvl_in)
    then show "\<not> cmp (keyof h (hd (lvl h L (e # hi')))) key"
      using scan_ctxD(5) [OF assms(1)] by blast
  qed
  ultimately have "Erase_walk cmp key h L (pred_at h hp lo (Suc L)) te =
      Some (Inr (pred_at h hp lo L,
                 if found_at cmp key h (e # hi') L then Some (hd (lvl h L (e # hi'))) else te))"
    using Erase_walk_chain [OF m(1), of cmp key te] m(3) by (simp add: found_at_def)
  then show ?thesis
    using found_at_hd [OF assms(1,2)] by (cases "found_at cmp key h (e # hi') L") simp_all
qed

lemma Erase_levels_pred:
  assumes "scan_ctx cmp M h hp key lo (e # hi')" "\<forall>a \<in> set hi'. cmp key (keyof h a)"
    and "\<not> cmp key (keyof h e)" "n \<le> M"
  shows "Erase_levels cmp key h n (pred_at h hp lo n) te (stack_of (pred_at h hp lo) [n..<M]) =
           Some (Inr (stack_of (pred_at h hp lo) [0..<M], if n = 0 then te else Some e))"
  using assms(4)
proof (induction n arbitrary: te)
  case 0
  then show ?case by simp
next
  case (Suc n)
  then have n: "n < M" by simp
  have f0: "found_at cmp key h (e # hi') 0"
    using lvl_zero(1) [OF assms(1)] assms(3) by (simp add: found_at_def)
  show ?case
  proof (cases "n = 0")
    case True
    then show ?thesis
      using Suc.prems Erase_walk_pred [OF assms(1,2) n] f0 upt_step [of 0 M]
      by simp
  next
    case False
    then show ?thesis
      using Suc Erase_walk_pred [OF assms(1,2) n]
      by (simp add: upt_step [of n M])
  qed
qed

subsection \<open>RandomHeight\<close>

lemma RandomHeight_loop_draws:
  "height \<le> M \<Longrightarrow>
   fst (RandomHeight_loop gen M height g) =
     height + length (takeWhile (\<lambda>r. r mod 4 = 0) (draws gen g (M - height)))"
proof (induction gen M height g rule: RandomHeight_loop.induct)
  case (1 gen M height g)
  show ?case
  proof (cases "height < M")
    case False
    then show ?thesis by simp
  next
    case True
    then obtain d where d: "M - height = Suc d" "M - (height + 1) = d"
      by (metis Suc_diff_Suc Suc_eq_plus1 diff_diff_left)
    obtain r g' where g: "gen g = (r, g')" by (cases "gen g")
    show ?thesis
    proof (cases "r mod 4 = 0")
      case False
      then show ?thesis using True g d by simp
    next
      case z: True
      have "fst (RandomHeight_loop gen M (height + 1) g') =
          height + 1 + length (takeWhile (\<lambda>r. r mod 4 = 0) (draws gen g' (M - (height + 1))))"
        using "1.IH" [OF True g [symmetric] z] True by simp
      then show ?thesis using True g d z by simp
    qed
  qed
qed

lemma length_draws: "length (draws gen g n) = n"
  by (induction n arbitrary: g) (auto split: prod.splits)

lemma RandomHeight_bounds:
  assumes "0 < M"
  shows "0 < fst (RandomHeight gen M g)" "fst (RandomHeight gen M g) \<le> M"
proof -
  have e: "fst (RandomHeight gen M g) =
      1 + length (takeWhile (\<lambda>r. r mod 4 = 0) (draws gen g (M - 1)))"
    using RandomHeight_loop_draws [of 1 M gen g] assms by (simp add: RandomHeight_def)
  then show "0 < fst (RandomHeight gen M g)" by simp
  have "length (takeWhile (\<lambda>r. r mod 4 = 0) (draws gen g (M - 1))) \<le> M - 1"
    using length_takeWhile_le [of "\<lambda>r. r mod 4 = 0" "draws gen g (M - 1)"]
    by (simp add: length_draws)
  with e assms show "fst (RandomHeight gen M g) \<le> M" by linarith
qed

subsection \<open>The recorded nodes\<close>

lemma last_filter_stronger:
  assumes "\<And>x. P x \<Longrightarrow> Q x" "filter Q xs \<noteq> []" "P (last (filter Q xs))"
  shows "last (filter P xs) = last (filter Q xs) \<and> filter P xs \<noteq> []"
  using assms(2,3)
proof (induction xs rule: rev_induct)
  case Nil
  then show ?case by simp
next
  case (snoc x xs)
  show ?case
  proof (cases "Q x")
    case True
    then show ?thesis using snoc.prems by simp
  next
    case False
    then have "\<not> P x" using assms(1) by blast
    then show ?thesis using False snoc by simp
  qed
qed

lemma pred_at_band:
  assumes "l \<le> j" "j < hgt h (pred_at h hp lo l)" "hp \<notin> set lo" "\<forall>a \<in> set lo. hgt h a \<le> hgt h hp"
  shows "pred_at h hp lo j = pred_at h hp lo l"
proof (cases "lvl h l lo = []")
  case True
  then have "\<forall>a \<in> set lo. \<not> l < hgt h a" by (simp add: lvl_def filter_empty_conv)
  then have "\<forall>a \<in> set lo. \<not> j < hgt h a" using assms(1) by auto
  then have "lvl h j lo = []" by (simp add: lvl_def filter_empty_conv)
  then show ?thesis using True by (simp add: pred_at_def)
next
  case False
  then have p: "pred_at h hp lo l = last (filter (\<lambda>a. l < hgt h a) lo)"
    by (simp add: pred_at_def lvl_def)
  have "last (filter (\<lambda>a. j < hgt h a) lo) = last (filter (\<lambda>a. l < hgt h a) lo)
      \<and> filter (\<lambda>a. j < hgt h a) lo \<noteq> []"
    using last_filter_stronger [of "\<lambda>a. j < hgt h a" "\<lambda>a. l < hgt h a" lo]
      assms(1,2) False p by (simp add: lvl_def)
  then show ?thesis using p by (simp add: pred_at_def lvl_def)
qed

lemma pred_at_banded:
  assumes "scan_ctx cmp M h hp key lo hi"
  shows "banded (hgt h) M (pred_at h hp lo)"
  unfolding banded_def
proof (intro allI impI conjI)
  fix l assume l: "l < M"
  show "l < hgt h (pred_at h hp lo l)" using pred_at_valid(2) [OF assms l] .
  show "hgt h (pred_at h hp lo l) \<le> M"
    using pred_at_cases [of h hp lo l] scan_ctxD(7,8) [OF assms] by auto
  fix j assume "l \<le> j \<and> j < hgt h (pred_at h hp lo l)"
  moreover have "hp \<notin> set lo" "\<forall>a \<in> set lo. hgt h a \<le> hgt h hp"
    using scan_ctxD(7,8) [OF assms] by auto
  ultimately show "pred_at h hp lo j = pred_at h hp lo l"
    using pred_at_band by blast
qed

lemma pred_at_in:
  assumes "scan_ctx cmp M h hp key lo hi"
  shows "pred_at h hp lo L \<in> set (hp # lo)" "pred_at h hp lo L < length h"
    "pred_at h hp lo L \<notin> set hi"
proof -
  show 1: "pred_at h hp lo L \<in> set (hp # lo)"
    using pred_at_cases [of h hp lo L] by auto
  then show "pred_at h hp lo L < length h"
    using scan_ctxD(6,8) [OF assms] by auto
  show "pred_at h hp lo L \<notin> set hi"
    using 1 scan_ctxD(8,9) [OF assms] by auto
qed

subsection \<open>The stack of recorded nodes\<close>

lemma stack_of_hd:
  "l < M \<Longrightarrow> stack_of c [l..<M] \<noteq> [] \<and> hd (stack_of c [l..<M]) = c l"
  by (simp add: upt_step [of l M] push_new_def)

lemma bandedD:
  assumes "banded hg M c" "l < M"
  shows "l < hg (c l)" "hg (c l) \<le> M" "\<And>j. l \<le> j \<Longrightarrow> j < hg (c l) \<Longrightarrow> c j = c l"
proof -
  have "l < hg (c l) \<and> hg (c l) \<le> M \<and> (\<forall>j. l \<le> j \<and> j < hg (c l) \<longrightarrow> c j = c l)"
    using assms unfolding banded_def by blast
  then show "l < hg (c l)" "hg (c l) \<le> M" "\<And>j. l \<le> j \<Longrightarrow> j < hg (c l) \<Longrightarrow> c j = c l"
    by blast+
qed

lemma stack_of_band:
  assumes "banded hg M c" "l < M"
  shows "stack_of c [l..<M] = c l # stack_of c [hg (c l)..<M]"
proof -
  note b = bandedD [OF assms]
  define l' where "l' = hg (c l)"
  have top: "stack_of c [l'..<M] = [] \<or> hd (stack_of c [l'..<M]) \<noteq> c l"
  proof (cases "l' < M")
    case False
    then show ?thesis by simp
  next
    case True
    then have "l' < hg (c l')" using bandedD(1) [OF assms(1)] by blast
    then have "c l' \<noteq> c l" using l'_def by auto
    then show ?thesis using stack_of_hd [OF True, of c] by simp
  qed
  have "stack_of c [n..<M] = c l # stack_of c [l'..<M]" if "l \<le> n" "n < l'" for n
    using that
  proof (induction "l' - n" arbitrary: n)
    case 0
    then show ?case by simp
  next
    case (Suc d)
    have cn: "c n = c l" using b(3) [of n] Suc.prems l'_def by simp
    have nM: "n < M" using Suc.prems b(2) l'_def by simp
    show ?case
    proof (cases "Suc n = l'")
      case True
      then show ?thesis using top cn nM by (auto simp: upt_step [of n M] push_new_def)
    next
      case False
      then have "stack_of c [Suc n..<M] = c l # stack_of c [l'..<M]"
        using Suc by (intro Suc.hyps(1)) auto
      then show ?thesis using cn nM by (simp add: upt_step [of n M] push_new_def)
    qed
  qed
  then show ?thesis using b(1) l'_def by simp
qed

subsection \<open>The splice of Insert\<close>

lemma spliced_start: "spliced h0 c t 0 h0"
  by (simp add: spliced_def)

lemma spliced_step:
  assumes "spliced h0 c t level h'" "c level = node" "node \<noteq> t"
    and "node < length h0" "t < length h0" "level < hgt h0 node" "level < hgt h0 t"
  shows "spliced h0 c t (Suc level)
           (set_link (set_link h' node level (Some t)) t level (lnk h' node level))"
proof -
  have len: "length h' = length h0" and hg: "\<And>a. hgt h' a = hgt h0 a"
    and ky: "\<And>a. keyof h' a = keyof h0 a"
    and lk: "\<And>a L. lnk h' a L =
         (if L < level \<and> a = t then lnk h0 (c L) L
          else if L < level \<and> a = c L then Some t
          else lnk h0 a L)"
    using assms(1) unfolding spliced_def by blast+
  let ?h1 = "set_link h' node level (Some t)"
  let ?h2 = "set_link ?h1 t level (lnk h' node level)"
  have l1: "lnk ?h1 a L = (if a = node \<and> L = level then Some t else lnk h' a L)" for a L
    using lnk_set_link [of node h' level "Some t" a L] assms(4,6) len hg by simp
  have l2: "lnk ?h2 a L = (if a = t \<and> L = level then lnk h' node level else lnk ?h1 a L)" for a L
    using lnk_set_link [of t ?h1 level "lnk h' node level" a L] assms(5,7) len hg by simp
  have n: "lnk h' node level = lnk h0 (c level) level"
    using lk [of node level] assms(2) by simp
  have "lnk ?h2 a L =
         (if L < Suc level \<and> a = t then lnk h0 (c L) L
          else if L < Suc level \<and> a = c L then Some t
          else lnk h0 a L)" for a L
  proof (cases "L = level")
    case True
    then show ?thesis using l1 [of a L] l2 [of a L] n lk [of a L] assms(2,3) by auto
  next
    case False
    then have "L < Suc level \<longleftrightarrow> L < level" by auto
    then show ?thesis using False l1 [of a L] l2 [of a L] lk [of a L] by simp
  qed
  then show ?thesis
    unfolding spliced_def using len hg ky by simp
qed

lemma splice_calls_Nil [simp]: "splice_calls h0 c t [] = []"
  by (simp add: splice_calls_def)

lemma splice_calls_append:
  "splice_calls h0 c t (xs @ ys) = splice_calls h0 c t xs @ splice_calls h0 c t ys"
  by (simp add: splice_calls_def)

lemma splice_calls_upt:
  assumes "i \<le> j" "j \<le> k"
  shows "splice_calls h0 c t [i..<j] @ splice_calls h0 c t [j..<k] = splice_calls h0 c t [i..<k]"
proof -
  have "[i..<k] = [i..<j] @ [j..<k]"
    using assms upt_add_eq_append [of i j "k - j"] by simp
  then show ?thesis by (simp add: splice_calls_append)
qed

lemma Insert_links_spliced:
  assumes "t < length h0" "hgt h0 t = height" "node < length h0" "node \<noteq> t"
    and "lv' = min height (hgt h0 node)"
    and "\<forall>l. level \<le> l \<and> l < lv' \<longrightarrow> c l = node"
    and "spliced h0 c t level h'" "level \<le> lv'"
  shows "\<exists>h''. Insert_links h' t height node level tr =
                  Inr (h'', lv', tr @ splice_calls h0 c t [level..<lv']) \<and>
               spliced h0 c t lv' h''"
  using assms(6,7,8)
proof (induction "lv' - level" arbitrary: level h' tr)
  case 0
  then have e: "level = lv'" by simp
  have "Height_at h' node = Inr (hgt h0 node)"
    using 0(3) assms(3) Height_at_valid [of node h'] by (simp add: spliced_def)
  moreover have "\<not> level < min height (hgt h0 node)" using e assms(5) by simp
  ultimately have "Insert_links h' t height node level tr = Inr (h', level, tr)"
    by (subst Insert_links.simps) auto
  then show ?case using e 0(3) by simp
next
  case (Suc d)
  then have lt: "level < lv'" by simp
  have len: "length h' = length h0" and hg: "\<And>a. hgt h' a = hgt h0 a"
    using Suc.prems(2) unfolding spliced_def by blast+
  have cl: "c level = node" using Suc.prems(1) lt by simp
  have lv: "level < height" "level < hgt h0 node" using lt assms(5) by simp_all
  let ?h1 = "set_link h' node level (Some t)"
  let ?h2 = "set_link ?h1 t level (lnk h' node level)"
  let ?tr = "tr @ [SetNextCall node level (Some t), SetNextCall t level (lnk h' node level)]"
  have sp: "spliced h0 c t (Suc level) ?h2"
    using spliced_step [OF Suc.prems(2) cl assms(4,3,1) lv(2)] lv(1) assms(2) by simp
  have nx: "lnk h' node level = lnk h0 (c level) level"
    using Suc.prems(2) cl unfolding spliced_def by simp
  have step: "Insert_links h' t height node level tr =
      Insert_links ?h2 t height node (level + 1) ?tr"
    using lv assms(1,2,3) len hg
    by (simp add: Insert_links.simps [of h' t height node level tr] Height_at_valid
        Next_at_valid SetNext_at_valid)
  have "\<exists>h''. Insert_links ?h2 t height node (Suc level) ?tr =
                  Inr (h'', lv', ?tr @ splice_calls h0 c t [Suc level..<lv']) \<and>
               spliced h0 c t lv' h''"
    using Suc.hyps(2) Suc.prems(1) lt sp by (intro Suc.hyps(1)) auto
  moreover have "?tr @ splice_calls h0 c t [Suc level..<lv'] =
      tr @ splice_calls h0 c t [level..<lv']"
    using lt nx cl by (simp add: upt_step [of level lv'] splice_calls_def)
  ultimately show ?case using step by simp
qed

lemma Insert_splice_done:
  "\<not> level < height \<Longrightarrow> Insert_splice h t height nodes level tr = Inr (h, tr)"
  by (cases nodes) simp_all

lemma Insert_splice_spliced:
  assumes "banded (hgt h0) M c" "height \<le> M" "t < length h0" "hgt h0 t = height"
    and "\<forall>l < M. c l < length h0 \<and> c l \<noteq> t"
    and "spliced h0 c t level h'" "level \<le> height"
  shows "\<exists>h''. Insert_splice h' t height (stack_of c [level..<M]) level tr =
                  Inr (h'', tr @ splice_calls h0 c t [level..<height]) \<and>
               spliced h0 c t height h''"
  using assms(6,7)
proof (induction "height - level" arbitrary: level h' tr rule: less_induct)
  case less
  show ?case
  proof (cases "level < height")
    case False
    then have "level = height" using less.prems by simp
    then have "Insert_splice h' t height (stack_of c [level..<M]) level tr =
        Inr (h', tr @ splice_calls h0 c t [level..<height])"
      using Insert_splice_done [of level height] by simp
    then show ?thesis using less.prems(1) \<open>level = height\<close> by blast
  next
    case True
    then have lM: "level < M" using assms(2) by simp
    note b = bandedD [OF assms(1) lM]
    define lv' where "lv' = min height (hgt h0 (c level))"
    have st: "stack_of c [level..<M] = c level # stack_of c [hgt h0 (c level)..<M]"
      using stack_of_band [OF assms(1) lM] .
    have band: "\<forall>l. level \<le> l \<and> l < lv' \<longrightarrow> c l = c level"
    proof (intro allI impI)
      fix l assume "level \<le> l \<and> l < lv'"
      then have "level \<le> l" "l < hgt h0 (c level)" using lv'_def by simp_all
      then show "c l = c level" by (rule b(3))
    qed
    have lv: "level < lv'" "lv' \<le> height" using True b(1) lv'_def by simp_all
    have cv: "c level < length h0" "c level \<noteq> t" using assms(5) lM by simp_all
    obtain h1 where h1:
      "Insert_links h' t height (c level) level tr =
         Inr (h1, lv', tr @ splice_calls h0 c t [level..<lv'])"
      "spliced h0 c t lv' h1"
      using Insert_links_spliced [OF assms(3,4) cv lv'_def band less.prems(1), of tr] lv(1)
      by auto
    show ?thesis
    proof (cases "lv' = height")
      case True
      have "Insert_splice h' t height (stack_of c [level..<M]) level tr =
          Inr (h1, tr @ splice_calls h0 c t [level..<height])"
        using h1(1) st \<open>level < height\<close> True Insert_splice_done [of height height] by simp
      then show ?thesis using h1(2) True by blast
    next
      case False
      then have e: "lv' = hgt h0 (c level)" "lv' < height" using lv'_def lv(2) by simp_all
      obtain h2 where h2:
        "Insert_splice h1 t height (stack_of c [lv'..<M]) lv'
            (tr @ splice_calls h0 c t [level..<lv']) =
           Inr (h2, (tr @ splice_calls h0 c t [level..<lv']) @ splice_calls h0 c t [lv'..<height])"
        "spliced h0 c t height h2"
      proof -
        have "height - lv' < height - level" using lv e(2) by simp
        from less.hyps [OF this h1(2), of "tr @ splice_calls h0 c t [level..<lv']"] lv(2)
        show ?thesis using that by auto
      qed
      have "Insert_splice h' t height (stack_of c [level..<M]) level tr =
          Inr (h2, tr @ splice_calls h0 c t [level..<height])"
        using st h1(1) h2(1) e(1) True splice_calls_upt [of level lv' height h0 c t] lv
        by simp
      then show ?thesis using h2(2) by blast
    qed
  qed
qed

subsection \<open>The splice of Erase\<close>

lemma unspliced_start: "unspliced h0 c e 0 h0"
  by (simp add: unspliced_def)

lemma unspliced_step:
  assumes "unspliced h0 c e level h'" "c level = node" "node \<noteq> e"
    and "node < length h0" "e < length h0" "level < hgt h0 node" "level < hgt h0 e"
  shows "unspliced h0 c e (Suc level)
           (set_link (set_link h' e level None) node level (lnk h' e level))"
proof -
  have len: "length h' = length h0" and hg: "\<And>a. hgt h' a = hgt h0 a"
    and ky: "\<And>a. keyof h' a = keyof h0 a"
    and lk: "\<And>a L. lnk h' a L =
         (if L < level \<and> a = e then None
          else if L < level \<and> a = c L then lnk h0 e L
          else lnk h0 a L)"
    using assms(1) unfolding unspliced_def by blast+
  let ?h1 = "set_link h' e level None"
  let ?h2 = "set_link ?h1 node level (lnk h' e level)"
  have l1: "lnk ?h1 a L = (if a = e \<and> L = level then None else lnk h' a L)" for a L
    using lnk_set_link [of e h' level None a L] assms(5,7) len hg by simp
  have l2: "lnk ?h2 a L = (if a = node \<and> L = level then lnk h' e level else lnk ?h1 a L)" for a L
    using lnk_set_link [of node ?h1 level "lnk h' e level" a L] assms(4,6) len hg by simp
  have n: "lnk h' e level = lnk h0 e level"
    using lk [of e level] by simp
  have "lnk ?h2 a L =
         (if L < Suc level \<and> a = e then None
          else if L < Suc level \<and> a = c L then lnk h0 e L
          else lnk h0 a L)" for a L
  proof (cases "L = level")
    case True
    then show ?thesis using l1 [of a L] l2 [of a L] n lk [of a L] assms(2,3) by auto
  next
    case False
    then have "L < Suc level \<longleftrightarrow> L < level" by auto
    then show ?thesis using False l1 [of a L] l2 [of a L] lk [of a L] by simp
  qed
  then show ?thesis
    unfolding unspliced_def using len hg ky by simp
qed

lemma Erase_links_unspliced:
  assumes "e < length h0" "hgt h0 e = height" "node < length h0" "node \<noteq> e"
    and "lv' = min height (hgt h0 node)"
    and "\<forall>l. level \<le> l \<and> l < lv' \<longrightarrow> c l = node"
    and "unspliced h0 c e level h'" "level \<le> lv'"
  shows "\<exists>h''. Erase_links h' e height node level = Inr (h'', lv') \<and> unspliced h0 c e lv' h''"
  using assms(6,7,8)
proof (induction "lv' - level" arbitrary: level h')
  case 0
  then have e: "level = lv'" by simp
  have "Height_at h' node = Inr (hgt h0 node)"
    using 0(3) assms(3) Height_at_valid [of node h'] by (simp add: unspliced_def)
  moreover have "\<not> level < min height (hgt h0 node)" using e assms(5) by simp
  ultimately have "Erase_links h' e height node level = Inr (h', level)"
    by (subst Erase_links.simps) auto
  then show ?case using e 0(3) by simp
next
  case (Suc d)
  then have lt: "level < lv'" by simp
  have len: "length h' = length h0" and hg: "\<And>a. hgt h' a = hgt h0 a"
    using Suc.prems(2) unfolding unspliced_def by blast+
  have cl: "c level = node" using Suc.prems(1) lt by simp
  have lv: "level < height" "level < hgt h0 node" using lt assms(5) by simp_all
  let ?h1 = "set_link h' e level None"
  let ?h2 = "set_link ?h1 node level (lnk h' e level)"
  have sp: "unspliced h0 c e (Suc level) ?h2"
    using unspliced_step [OF Suc.prems(2) cl assms(4,3,1) lv(2)] lv(1) assms(2) by simp
  have step: "Erase_links h' e height node level = Erase_links ?h2 e height node (level + 1)"
    using lv assms(1,2,3) len hg
    by (simp add: Erase_links.simps [of h' e height node level] Height_at_valid
        Next_at_valid SetNext_at_valid)
  have "\<exists>h''. Erase_links ?h2 e height node (Suc level) = Inr (h'', lv') \<and>
               unspliced h0 c e lv' h''"
    using Suc.hyps(2) Suc.prems(1) lt sp by (intro Suc.hyps(1)) auto
  then show ?case using step by simp
qed

lemma Erase_splice_done:
  "\<not> level < height \<Longrightarrow> Erase_splice h e height nodes level = Inr h"
  by (cases nodes) simp_all

lemma Erase_splice_unspliced:
  assumes "banded (hgt h0) M c" "height \<le> M" "e < length h0" "hgt h0 e = height"
    and "\<forall>l < M. c l < length h0 \<and> c l \<noteq> e"
    and "unspliced h0 c e level h'" "level \<le> height"
  shows "\<exists>h''. Erase_splice h' e height (stack_of c [level..<M]) level = Inr h'' \<and>
               unspliced h0 c e height h''"
  using assms(6,7)
proof (induction "height - level" arbitrary: level h' rule: less_induct)
  case less
  show ?case
  proof (cases "level < height")
    case False
    then have "level = height" using less.prems by simp
    then have "Erase_splice h' e height (stack_of c [level..<M]) level = Inr h'"
      using Erase_splice_done [of level height] by simp
    then show ?thesis using less.prems(1) \<open>level = height\<close> by blast
  next
    case True
    then have lM: "level < M" using assms(2) by simp
    note b = bandedD [OF assms(1) lM]
    define lv' where "lv' = min height (hgt h0 (c level))"
    have st: "stack_of c [level..<M] = c level # stack_of c [hgt h0 (c level)..<M]"
      using stack_of_band [OF assms(1) lM] .
    have band: "\<forall>l. level \<le> l \<and> l < lv' \<longrightarrow> c l = c level"
    proof (intro allI impI)
      fix l assume "level \<le> l \<and> l < lv'"
      then have "level \<le> l" "l < hgt h0 (c level)" using lv'_def by simp_all
      then show "c l = c level" by (rule b(3))
    qed
    have lv: "level < lv'" "lv' \<le> height" using True b(1) lv'_def by simp_all
    have cv: "c level < length h0" "c level \<noteq> e" using assms(5) lM by simp_all
    obtain h1 where h1:
      "Erase_links h' e height (c level) level = Inr (h1, lv')"
      "unspliced h0 c e lv' h1"
      using Erase_links_unspliced [OF assms(3,4) cv lv'_def band less.prems(1)] lv(1)
      by auto
    show ?thesis
    proof (cases "lv' = height")
      case True
      have "Erase_splice h' e height (stack_of c [level..<M]) level = Inr h1"
        using h1(1) st \<open>level < height\<close> True Erase_splice_done [of height height] by simp
      then show ?thesis using h1(2) True by blast
    next
      case False
      then have e: "lv' = hgt h0 (c level)" "lv' < height" using lv'_def lv(2) by simp_all
      obtain h2 where h2:
        "Erase_splice h1 e height (stack_of c [lv'..<M]) lv' = Inr h2"
        "unspliced h0 c e height h2"
      proof -
        have "height - lv' < height - level" using lv e(2) by simp
        from less.hyps [OF this h1(2)] lv(2)
        show ?thesis using that by auto
      qed
      have "Erase_splice h' e height (stack_of c [level..<M]) level = Inr h2"
        using st h1(1) h2(1) e(1) True by simp
      then show ?thesis using h2(2) by blast
    qed
  qed
qed

subsection \<open>Surgery on chains\<close>

lemma lchain_Cons2:
  "lchain h L (x # y # ys) =
     (x < length h \<and> L < hgt h x \<and> lnk h x L = Some y \<and> lchain h L (y # ys))"
  by auto

lemma chain_transfer:
  assumes "chain h L p as" "length h \<le> length h'"
    and "\<forall>a \<in> set as. hgt h' a = hgt h a \<and> lnk h' a L = lnk h a L"
  shows "chain h' L p as"
  using assms(1,3)
proof (induction as arbitrary: p)
  case Nil
  then show ?case by simp
next
  case (Cons a as)
  then show ?case using assms(2) by auto
qed

lemma lchain_transfer:
  assumes "lchain h L xs" "length h \<le> length h'"
    and "\<forall>a \<in> set xs. hgt h' a = hgt h a \<and> lnk h' a L = lnk h a L"
  shows "lchain h' L xs"
proof (cases xs)
  case Nil
  then show ?thesis using assms(1) by simp
next
  case (Cons x ys)
  then have "chain h L (lnk h x L) ys" using assms(1) by simp
  then have "chain h' L (lnk h x L) ys"
    using chain_transfer [of h L "lnk h x L" ys h'] assms(2,3) Cons by simp
  then show ?thesis using assms Cons by auto
qed

lemma lchain_insert:
  assumes "X \<noteq> []" "lchain h L (X @ Y)" "distinct (X @ Y)"
    and "t < length h'" "L < hgt h' t" "lnk h' t L = lnk h (last X) L"
    and "lnk h' (last X) L = Some t"
    and "\<forall>a \<in> set (X @ Y). a \<noteq> last X \<longrightarrow> lnk h' a L = lnk h a L"
    and "\<forall>a \<in> set (X @ Y). hgt h' a = hgt h a" "length h \<le> length h'"
  shows "lchain h' L (X @ t # Y)"
  using assms(1,2,3,6,7,8,9)
proof (induction X rule: list_nonempty_induct)
  case (single x)
  then have "chain h L (lnk h x L) Y" by simp
  moreover have "\<forall>a \<in> set Y. hgt h' a = hgt h a \<and> lnk h' a L = lnk h a L"
    using single by auto
  ultimately have "chain h' L (lnk h x L) Y"
    using chain_transfer [of h L "lnk h x L" Y h'] assms(10) by blast
  then show ?case using single assms(4,5,10) by auto
next
  case (cons x X)
  obtain y ys where y: "X = y # ys" using cons.hyps(1) by (cases X) auto
  have x: "x \<noteq> last (x # X)" using cons.prems(2) cons.hyps(1) by auto
  have old: "x < length h" "L < hgt h x" "lnk h x L = Some y" "lchain h L (X @ Y)"
    using cons.prems(1) y by auto
  have "lchain h' L (X @ t # Y)"
    using cons.prems cons.hyps(1) old(4) by (intro cons.IH) auto
  moreover have "lnk h' x L = Some y" "hgt h' x = hgt h x"
    using cons.prems(5,6) x old(3) by auto
  ultimately show ?case using old y assms(10) by auto
qed

lemma lchain_delete:
  assumes "X \<noteq> []" "lchain h L (X @ e # Y)" "distinct (X @ e # Y)"
    and "lnk h' (last X) L = lnk h e L"
    and "\<forall>a \<in> set (X @ Y). a \<noteq> last X \<longrightarrow> lnk h' a L = lnk h a L"
    and "\<forall>a \<in> set (X @ Y). hgt h' a = hgt h a" "length h \<le> length h'"
  shows "lchain h' L (X @ Y)"
  using assms(1,2,3,4,5,6)
proof (induction X rule: list_nonempty_induct)
  case (single x)
  then have "chain h L (lnk h e L) Y" by simp
  moreover have "\<forall>a \<in> set Y. hgt h' a = hgt h a \<and> lnk h' a L = lnk h a L"
    using single by auto
  ultimately have "chain h' L (lnk h e L) Y"
    using chain_transfer [of h L "lnk h e L" Y h'] assms(7) by blast
  then show ?case using single assms(7) by auto
next
  case (cons x X)
  obtain y ys where y: "X = y # ys" using cons.hyps(1) by (cases X) auto
  have x: "x \<noteq> last (x # X)" using cons.prems(2) cons.hyps(1) by auto
  have old: "x < length h" "L < hgt h x" "lnk h x L = Some y" "lchain h L (X @ e # Y)"
    using cons.prems(1) y by auto
  have "lchain h' L (X @ Y)"
    using cons.prems cons.hyps(1) old(4) by (intro cons.IH) auto
  moreover have "lnk h' x L = Some y" "hgt h' x = hgt h x"
    using cons.prems(4,5) x old(3) by auto
  ultimately show ?case using old y assms(7) by auto
qed

subsection \<open>Insert keeps the invariant\<close>

lemma store_snoc:
  "a < length h \<Longrightarrow> hgt (h @ [n]) a = hgt h a"
  "a < length h \<Longrightarrow> keyof (h @ [n]) a = keyof h a"
  "a < length h \<Longrightarrow> lnk (h @ [n]) a L = lnk h a L"
  "hgt (h @ [SkipNode_new height key]) (length h) = height"
  "keyof (h @ [SkipNode_new height key]) (length h) = key"
  by (simp_all add: hgt_def keyof_def lnk_def nth_append SkipNode_new_def)

lemma lvl_append: "lvl h L (xs @ ys) = lvl h L xs @ lvl h L ys"
  by (simp add: lvl_def)

lemma lvl_cong: "(\<And>a. a \<in> set xs \<Longrightarrow> hgt h' a = hgt h a) \<Longrightarrow> lvl h' L xs = lvl h L xs"
  unfolding lvl_def by (rule filter_cong) auto

lemma Insert_store_inv:
  assumes ctx: "scan_ctx cmp M h hp key lo hi"
    and hi: "\<forall>a \<in> set hi. cmp key (keyof h a)"
    and ht: "0 < height" "height \<le> M"
    and sp: "spliced (h @ [SkipNode_new height key]) (pred_at h hp lo) (length h) height h'"
  shows "store_inv cmp M h' hp (lo @ length h # hi)"
proof -
  let ?h0 = "h @ [SkipNode_new height key]"
  let ?t = "length h"
  let ?c = "pred_at h hp lo"
  note c = scan_ctxD [OF ctx]
  have len: "length h' = Suc (length h)" and hg0: "\<And>a. hgt h' a = hgt ?h0 a"
    and ky0: "\<And>a. keyof h' a = keyof ?h0 a"
    and lk: "\<And>a L. lnk h' a L =
         (if L < height \<and> a = ?t then lnk ?h0 (?c L) L
          else if L < height \<and> a = ?c L then Some ?t
          else lnk ?h0 a L)"
    using sp unfolding spliced_def by simp_all
  have hg: "hgt h' a = hgt h a" if "a < length h" for a
    using hg0 [of a] store_snoc(1) [OF that] by simp
  have ky: "keyof h' a = keyof h a" if "a < length h" for a
    using ky0 [of a] store_snoc(2) [OF that] by simp
  have hgt_t: "hgt h' ?t = height" using hg0 [of ?t] store_snoc(4) [of h height key] by simp
  have ky_t: "keyof h' ?t = key" using ky0 [of ?t] store_snoc(5) [of h height key] by simp
  have old: "a < length h" "a \<noteq> ?t" "a \<noteq> hp" "0 < hgt h a" "hgt h a \<le> M"
    if "a \<in> set (lo @ hi)" for a
    using c(8) [OF that] by simp_all
  have cL: "?c L < length h" "?c L \<noteq> ?t" for L
    using pred_at_in(2) [OF ctx, of L] by simp_all
  have lv: "lvl h' L xs = lvl h L xs" if "set xs \<subseteq> set (lo @ hi)" for L xs
    using that old(1) hg by (intro lvl_cong) blast
  have lvl_new: "lvl h' L (lo @ ?t # hi) =
      lvl h L lo @ (if L < height then [?t] else []) @ lvl h L hi" for L
  proof -
    have "lvl h' L (lo @ ?t # hi) = lvl h' L lo @ lvl h' L [?t] @ lvl h' L hi"
      using lvl_append [of h' L lo "?t # hi"] lvl_append [of h' L "[?t]" hi] by simp
    moreover have "lvl h' L [?t] = (if L < height then [?t] else [])"
      using hgt_t by (simp add: lvl_def)
    ultimately show ?thesis using lv [of lo L] lv [of hi L] by simp
  qed
  have ks: "map (keyof h') (lo @ hi) = map (keyof h) (lo @ hi)"
    using ky old(1) by (intro map_cong) auto
  have sorted: "sorted_wrt cmp (map (keyof h') (lo @ ?t # hi))"
  proof -
    have "sorted_wrt cmp (map (keyof h) (lo @ hi))"
      using c(2) by (simp add: store_inv_def)
    then have "sorted_wrt cmp (map (keyof h') (lo @ hi))" by (simp only: ks)
    then show ?thesis
      using ky_t c(3) hi ky old(1)
      by (auto simp: sorted_wrt_append)
  qed
  have chains: "lchain h' L (hp # lvl h' L (lo @ ?t # hi))" if L: "L < M" for L
  proof (cases "L < height")
    case False
    have o: "lchain h L (hp # lvl h L lo @ lvl h L hi)" using c(10) [OF L] .
    have "\<forall>a \<in> set (hp # lvl h L lo @ lvl h L hi). hgt h' a = hgt h a \<and> lnk h' a L = lnk h a L"
    proof
      fix a assume "a \<in> set (hp # lvl h L lo @ lvl h L hi)"
      then have a: "a < length h" using c(6) old(1) by (auto simp: lvl_def)
      then show "hgt h' a = hgt h a \<and> lnk h' a L = lnk h a L"
        using hg [OF a] lk [of a L] False store_snoc(3) [OF a] by simp
    qed
    then have "lchain h' L (hp # lvl h L lo @ lvl h L hi)"
      using lchain_transfer [OF o, of h'] len by simp
    then show ?thesis using lvl_new [of L] False by simp
  next
    case True
    let ?X = "hp # lvl h L lo"
    let ?Y = "lvl h L hi"
    have sub: "set (?X @ ?Y) \<subseteq> insert hp (set (lo @ hi))" by (auto simp: lvl_def)
    have val: "a < length h" if "a \<in> set (?X @ ?Y)" for a
      using that sub c(6) old(1) by blast
    have last: "last ?X = ?c L" by (simp add: pred_at_def)
    have 1: "lchain h L (?X @ ?Y)" using c(10) [OF L] by simp
    have 2: "distinct (?X @ ?Y)"
    proof -
      have "distinct (lvl h L (lo @ hi))" using c(9) unfolding lvl_def by (rule distinct_filter)
      moreover have "hp \<notin> set (lvl h L (lo @ hi))" using old(3) by (auto simp: lvl_def)
      ultimately show ?thesis by (simp add: lvl_append)
    qed
    have 3: "lnk h' ?t L = lnk h (last ?X) L"
      using lk [of ?t L] True last store_snoc(3) [OF cL(1), of _ L] by simp
    have 4: "lnk h' (last ?X) L = Some ?t"
      using lk [of "?c L" L] True last cL(2) by simp
    have 5: "\<forall>a \<in> set (?X @ ?Y). a \<noteq> last ?X \<longrightarrow> lnk h' a L = lnk h a L"
    proof (intro ballI impI)
      fix a assume a: "a \<in> set (?X @ ?Y)" "a \<noteq> last ?X"
      then show "lnk h' a L = lnk h a L"
        using lk [of a L] last val [OF a(1)] store_snoc(3) [of a h _ L] by simp
    qed
    have 6: "\<forall>a \<in> set (?X @ ?Y). hgt h' a = hgt h a"
      using val hg by blast
    have "lchain h' L (?X @ ?t # ?Y)"
      using lchain_insert [of ?X h L ?Y ?t h', OF _ 1 2 _ _ 3 4 5 6] len hgt_t True by simp
    then show ?thesis using lvl_new [of L] True by simp
  qed
  have "hp < length h'" "hgt h' hp = M" using c(6,7) len hg by simp_all
  moreover have "hp \<notin> set (lo @ ?t # hi)" using old(3) c(6) by auto
  moreover have "distinct (lo @ ?t # hi)" using c(9) old(2) by auto
  moreover have "\<forall>a \<in> set (lo @ ?t # hi). a < length h' \<and> 0 < hgt h' a \<and> hgt h' a \<le> M"
  proof
    fix a assume "a \<in> set (lo @ ?t # hi)"
    then consider "a = ?t" | "a \<in> set (lo @ hi)" by auto
    then show "a < length h' \<and> 0 < hgt h' a \<and> hgt h' a \<le> M"
    proof cases
      case 1
      then show ?thesis using len hgt_t ht by simp
    next
      case 2
      then show ?thesis using old [OF 2] hg len by simp
    qed
  qed
  ultimately show ?thesis
    unfolding store_inv_def using sorted chains by blast
qed

subsection \<open>Erase keeps the invariant\<close>

lemma Erase_store_inv:
  assumes ctx: "scan_ctx cmp M h hp key lo (e # hi)"
    and sp: "unspliced h (pred_at h hp lo) e (hgt h e) h'"
  shows "store_inv cmp M h' hp (lo @ hi)"
proof -
  let ?c = "pred_at h hp lo"
  note c = scan_ctxD [OF ctx]
  have len: "length h' = length h" and hg: "\<And>a. hgt h' a = hgt h a"
    and ky: "\<And>a. keyof h' a = keyof h a"
    and lk: "\<And>a L. lnk h' a L =
         (if L < hgt h e \<and> a = e then None
          else if L < hgt h e \<and> a = ?c L then lnk h e L
          else lnk h a L)"
    using sp unfolding unspliced_def by simp_all
  have old: "a < length h" "a \<noteq> hp" "0 < hgt h a" "hgt h a \<le> M"
    if "a \<in> set (lo @ e # hi)" for a
    using c(8) [OF that] by simp_all
  have e: "e \<notin> set (lo @ hi)" using c(9) by auto
  have cL: "?c L \<noteq> e" for L
    using pred_at_in(3) [OF ctx, of L] by auto
  have lv: "lvl h' L xs = lvl h L xs" for L xs
    using hg by (intro lvl_cong) blast
  have ks: "map (keyof h') (lo @ hi) = map (keyof h) (lo @ hi)"
    using ky by (intro map_cong) auto
  have sorted: "sorted_wrt cmp (map (keyof h') (lo @ hi))"
  proof -
    have "sorted_wrt cmp (map (keyof h) (lo @ e # hi))"
      using c(2) by (simp add: store_inv_def)
    then have "sorted_wrt cmp (map (keyof h) (lo @ hi))"
      by (auto simp: sorted_wrt_append)
    then show ?thesis by (simp only: ks)
  qed
  have chains: "lchain h' L (hp # lvl h' L (lo @ hi))" if L: "L < M" for L
  proof (cases "L < hgt h e")
    case False
    then have "lvl h L (lo @ e # hi) = lvl h L (lo @ hi)" by (simp add: lvl_def)
    then have o: "lchain h L (hp # lvl h L (lo @ hi))"
      using c(10) [OF L] by (simp add: lvl_append)
    have "\<forall>a \<in> set (hp # lvl h L (lo @ hi)). hgt h' a = hgt h a \<and> lnk h' a L = lnk h a L"
      using hg lk False by simp
    then have "lchain h' L (hp # lvl h L (lo @ hi))"
      using lchain_transfer [OF o, of h'] len by simp
    then show ?thesis using lv by simp
  next
    case True
    let ?X = "hp # lvl h L lo"
    let ?Y = "lvl h L hi"
    have last: "last ?X = ?c L" by (simp add: pred_at_def)
    have "lvl h L (lo @ e # hi) = lvl h L lo @ e # lvl h L hi"
      using True by (simp add: lvl_def)
    then have 1: "lchain h L (?X @ e # ?Y)" using c(10) [OF L] by (simp add: lvl_append)
    have 2: "distinct (?X @ e # ?Y)"
    proof -
      have "distinct (lvl h L (lo @ e # hi))" using c(9) unfolding lvl_def by (rule distinct_filter)
      moreover have "hp \<notin> set (lvl h L (lo @ e # hi))" using old(2) by (auto simp: lvl_def)
      ultimately show ?thesis using True by (simp add: lvl_def)
    qed
    have ne: "a \<noteq> e" if "a \<in> set (?X @ ?Y)" for a
      using that e old(2) [of e] by (auto simp: lvl_def)
    have 3: "lnk h' (last ?X) L = lnk h e L"
      using lk [of "?c L" L] True last cL by simp
    have 4: "\<forall>a \<in> set (?X @ ?Y). a \<noteq> last ?X \<longrightarrow> lnk h' a L = lnk h a L"
    proof (intro ballI impI)
      fix a assume a: "a \<in> set (?X @ ?Y)" "a \<noteq> last ?X"
      then show "lnk h' a L = lnk h a L"
        using lk [of a L] last ne [OF a(1)] by simp
    qed
    have 5: "\<forall>a \<in> set (?X @ ?Y). hgt h' a = hgt h a"
      using hg by blast
    have "lchain h' L (?X @ ?Y)"
      using lchain_delete [of ?X h L e ?Y h', OF _ 1 2 3 4 5] len by simp
    then show ?thesis using lv by (simp add: lvl_append)
  qed
  have "hp < length h'" "hgt h' hp = M" using c(6,7) len hg by simp_all
  moreover have "hp \<notin> set (lo @ hi)" using old(2) by auto
  moreover have "distinct (lo @ hi)" using c(9) by auto
  moreover have "\<forall>a \<in> set (lo @ hi). a < length h' \<and> 0 < hgt h' a \<and> hgt h' a \<le> M"
    using old hg len by auto
  ultimately show ?thesis
    unfolding store_inv_def using sorted chains by blast
qed

lemma Erase_links_null:
  assumes "unspliced h c e (hgt h e) h'" "L < hgt h e"
  shows "lnk h' e L = None"
  using assms unfolding unspliced_def by simp

subsection \<open>The operations on a container that satisfies the invariant\<close>

lemma absent_hi:
  assumes "scan_ctx cmp M h hp key lo hi"
    and "\<not> (\<exists>a \<in> set (lo @ hi). equiv cmp key (keyof h a))"
  shows "\<forall>a \<in> set hi. cmp key (keyof h a)"
  using assms scan_ctxD(5) [OF assms(1)] by (auto simp: equiv_def)

lemma present_split:
  assumes "scan_ctx cmp M h hp key lo hi"
    and "\<exists>a \<in> set (lo @ hi). equiv cmp key (keyof h a)"
  shows "\<exists>e hi'. hi = e # hi' \<and> equiv cmp key (keyof h e) \<and>
           (\<forall>a \<in> set hi'. cmp key (keyof h a))"
proof -
  note c = scan_ctxD [OF assms(1)]
  obtain a where a: "a \<in> set (lo @ hi)" "equiv cmp key (keyof h a)" using assms(2) by blast
  then have "a \<in> set hi" using c(3) by (auto simp: equiv_def)
  then obtain e hi' where hi: "hi = e # hi'" by (cases hi) auto
  have srt: "cmp (keyof h e) (keyof h b)" if "b \<in> set hi'" for b
    using hi_sorted [of cmp M h hp key lo e hi' b] assms(1) hi that by simp
  have ne: "\<not> cmp key (keyof h e)"
  proof (cases "a = e")
    case True
    then show ?thesis using a(2) by (simp add: equiv_def)
  next
    case False
    then have "cmp (keyof h e) (keyof h a)" using srt hi \<open>a \<in> set hi\<close> by simp
    then show ?thesis using a(2) swo_trans [OF c(1)] by (auto simp: equiv_def)
  qed
  have "\<not> cmp (keyof h e) key" using c(5) hi by simp
  then have "equiv cmp key (keyof h e)" using ne by (simp add: equiv_def)
  moreover have "\<forall>b \<in> set hi'. cmp key (keyof h b)"
    using srt \<open>\<not> cmp (keyof h e) key\<close> swo_not_less_less [OF c(1)] by blast
  ultimately show ?thesis using hi by blast
qed

lemma banded_cong:
  assumes "banded hg M c" "\<forall>l < M. hg' (c l) = hg (c l)"
  shows "banded hg' M c"
  unfolding banded_def
proof (intro allI impI)
  fix l assume l: "l < M"
  then have e: "hg' (c l) = hg (c l)" using assms(2) by simp
  have "l < hg (c l) \<and> hg (c l) \<le> M \<and> (\<forall>j. l \<le> j \<and> j < hg (c l) \<longrightarrow> c j = c l)"
    using assms(1) l unfolding banded_def by blast
  then show "l < hg' (c l) \<and> hg' (c l) \<le> M \<and> (\<forall>j. l \<le> j \<and> j < hg' (c l) \<longrightarrow> c j = c l)"
    unfolding e .
qed

lemma splice_calls_cong:
  assumes "\<forall>l \<in> set ls. lnk h' (c l) l = lnk h (c l) l"
  shows "splice_calls h' c t ls = splice_calls h c t ls"
  using assms by (induction ls) (simp_all add: splice_calls_def)

lemma Insert_traced_absent:
  assumes swo: "strict_weak_order cmp" and M: "0 < M"
    and ctx: "scan_ctx cmp M (store s) (header s) key lo hi"
    and sz: "size' s = length (lo @ hi)"
    and absent: "\<not> (\<exists>a \<in> set (lo @ hi). equiv cmp key (keyof (store s) a))"
  shows "\<exists>h'. Insert_traced cmp gen M s key =
            Some (Inr (True,
               s\<lparr>store := h', size' := size' s + 1, rng := snd (RandomHeight gen M (rng s))\<rparr>,
               splice_calls (store s) (pred_at (store s) (header s) lo) (length (store s))
                 [0..<fst (RandomHeight gen M (rng s))])) \<and>
          spliced (store s @ [SkipNode_new (fst (RandomHeight gen M (rng s))) key])
            (pred_at (store s) (header s) lo) (length (store s))
            (fst (RandomHeight gen M (rng s))) h' \<and>
          store_inv cmp M h' (header s) (lo @ length (store s) # hi)"
proof -
  let ?h = "store s" and ?hp = "header s"
  let ?c = "pred_at ?h ?hp lo"
  let ?height = "fst (RandomHeight gen M (rng s))"
  let ?hn = "?h @ [SkipNode_new ?height key]"
  let ?t = "length ?h"
  note c = scan_ctxD [OF ctx]
  have inv: "store_inv cmp M ?h ?hp (lo @ hi)" using c(2) .
  have 1: "Contains cmp M s key = Some (Inr False)"
    using Contains_store_inv [OF swo inv, of key] absent by simp
  have hi: "\<forall>a \<in> set hi. cmp key (keyof ?h a)" using absent_hi [OF ctx absent] .
  have 2: "Insert_levels cmp key ?h M ?hp [] = Some (Inr (stack_of ?c [0..<M]))"
    using Insert_levels_pred [OF ctx hi, of M] pred_at_top [OF ctx] by simp
  have ht: "0 < ?height" "?height \<le> M"
    using RandomHeight_bounds [OF M, of gen "rng s"] by simp_all
  have cv: "?c l < ?t" for l using pred_at_in(2) [OF ctx] .
  have "\<forall>l < M. hgt ?hn (?c l) = hgt ?h (?c l)"
    using cv store_snoc(1) by blast
  then have b: "banded (hgt ?hn) M ?c"
    using banded_cong [OF pred_at_banded [OF ctx]] by blast
  have 3: "\<forall>l < M. ?c l < length ?hn \<and> ?c l \<noteq> ?t"
  proof (intro allI impI)
    fix l show "?c l < length ?hn \<and> ?c l \<noteq> ?t" using cv [of l] by simp
  qed
  have t: "?t < length ?hn" "hgt ?hn ?t = ?height"
    using store_snoc(4) [of ?h ?height key] by simp_all
  obtain h' where h':
    "Insert_splice ?hn ?t ?height (stack_of ?c [0..<M]) 0 [] =
       Inr (h', [] @ splice_calls ?hn ?c ?t [0..<?height])"
    "spliced ?hn ?c ?t ?height h'"
    using Insert_splice_spliced [OF b ht(2) t 3 spliced_start, of "[]"] by blast
  have "\<forall>l \<in> set [0..<?height]. lnk ?hn (?c l) l = lnk ?h (?c l) l"
    using cv store_snoc(3) by blast
  then have tr: "splice_calls ?hn ?c ?t [0..<?height] = splice_calls ?h ?c ?t [0..<?height]"
    by (rule splice_calls_cong)
  have "Insert_traced cmp gen M s key =
      Some (Inr (True, s\<lparr>store := h', size' := size' s + 1,
                          rng := snd (RandomHeight gen M (rng s))\<rparr>,
                 splice_calls ?h ?c ?t [0..<?height]))"
    using 1 2 h'(1) tr by (simp add: Insert_traced_def split_beta Let_def)
  moreover have "store_inv cmp M h' ?hp (lo @ ?t # hi)"
    using Insert_store_inv [OF ctx hi ht h'(2)] .
  ultimately show ?thesis using h'(2) by blast
qed

lemma Erase_present:
  assumes swo: "strict_weak_order cmp"
    and ctx: "scan_ctx cmp M (store s) (header s) key lo (e # hi)"
    and e: "equiv cmp key (keyof (store s) e)"
    and hi: "\<forall>a \<in> set hi. cmp key (keyof (store s) a)"
  shows "\<exists>h'. Erase cmp M s key = Some (Inr (True, s\<lparr>store := h', size' := size' s - 1\<rparr>)) \<and>
          unspliced (store s) (pred_at (store s) (header s) lo) e (hgt (store s) e) h' \<and>
          store_inv cmp M h' (header s) (lo @ hi)"
proof -
  let ?h = "store s" and ?hp = "header s"
  let ?c = "pred_at ?h ?hp lo"
  note c = scan_ctxD [OF ctx]
  have 1: "Contains cmp M s key = Some (Inr True)"
    using Contains_store_inv [OF swo c(2), of key] e by auto
  have ne: "\<not> cmp key (keyof ?h e)" using e by (simp add: equiv_def)
  have 2: "Erase_levels cmp key ?h M ?hp None [] =
      Some (Inr (stack_of ?c [0..<M], if M = 0 then None else Some e))"
    using Erase_levels_pred [OF ctx hi ne, of M None] pred_at_top [OF ctx] by simp
  have ev: "e < length ?h" "0 < hgt ?h e" "hgt ?h e \<le> M" using c(8) [of e] by simp_all
  then have M: "M \<noteq> 0" by simp
  have 3: "\<forall>l < M. ?c l < length ?h \<and> ?c l \<noteq> e"
    using pred_at_in(2,3) [OF ctx] by auto
  obtain h' where h':
    "Erase_splice ?h e (hgt ?h e) (stack_of ?c [0..<M]) 0 = Inr h'"
    "unspliced ?h ?c e (hgt ?h e) h'"
    using Erase_splice_unspliced [OF pred_at_banded [OF ctx] ev(3) ev(1) refl 3 unspliced_start]
    by auto
  have "Erase cmp M s key = Some (Inr (True, s\<lparr>store := h', size' := size' s - 1\<rparr>))"
    using 1 2 M h'(1) ev(1) by (simp add: Erase_def Height_at_valid)
  moreover have "store_inv cmp M h' ?hp (lo @ hi)"
    using Erase_store_inv [OF ctx h'(2)] .
  ultimately show ?thesis using h'(2) by blast
qed

lemma Erase_absent:
  assumes "strict_weak_order cmp" "store_inv cmp M (store s) (header s) ns"
    and "\<not> (\<exists>a \<in> set ns. equiv cmp key (keyof (store s) a))"
  shows "Erase cmp M s key = Some (Inr (False, s))"
  using Contains_store_inv [OF assms(1,2), of key] assms(3) by (simp add: Erase_def)

subsection \<open>Drop and Clear\<close>

lemma Drop_walk_step:
  assumes "a < length h" "i < hgt h a"
  shows "Drop_walk hp h i (Some a) ev =
           Drop_walk hp (set_link h a i None) i (lnk h a i)
             (ev @ Detached a i #
                (if a = hp \<or> lnk h a i = Some a \<or> referenced (set_link h a i None) a then []
                 else [Destroyed a (held ((h ! a)\<lparr>links := (links (h ! a))[i := None]\<rparr>))]))"
  using assms
  by (subst Drop_walk.simps) (simp add: node_at_def hgt_def set_link_def lnk_def)

lemma Drop_walk_chain:
  assumes "chain h i p as" "distinct as"
  shows "\<exists>h' ev'. Drop_walk hp h i p ev = Inr (h', ev') \<and> length h' = length h \<and>
           (\<forall>a. hgt h' a = hgt h a \<and> keyof h' a = keyof h a) \<and>
           (\<forall>a L. lnk h' a L = (if L = i \<and> a \<in> set as then None else lnk h a L))"
  using assms
proof (induction as arbitrary: h p ev)
  case Nil
  then have "Drop_walk hp h i p ev = Inr (h, ev)" by (subst Drop_walk.simps) simp
  then show ?case by simp
next
  case (Cons a as)
  then have a: "p = Some a" "a < length h" "i < hgt h a" "chain h i (lnk h a i) as"
    "a \<notin> set as" "distinct as"
    by simp_all
  let ?h1 = "set_link h a i None"
  let ?ev1 = "ev @ Detached a i #
      (if a = hp \<or> lnk h a i = Some a \<or> referenced ?h1 a then []
       else [Destroyed a (held ((h ! a)\<lparr>links := (links (h ! a))[i := None]\<rparr>))])"
  have l1: "lnk ?h1 b L = (if b = a \<and> L = i then None else lnk h b L)" for b L
    using lnk_set_link [OF a(2,3)] by simp
  have "\<forall>b \<in> set as. hgt ?h1 b = hgt h b \<and> lnk ?h1 b i = lnk h b i"
    using l1 a(5) by auto
  then have "chain ?h1 i (lnk h a i) as"
    using chain_transfer [OF a(4), of ?h1] by simp
  from Cons.IH [OF this a(6), of ?ev1] obtain h' ev' where h':
    "Drop_walk hp ?h1 i (lnk h a i) ?ev1 = Inr (h', ev')" "length h' = length ?h1"
    "\<And>b. hgt h' b = hgt ?h1 b \<and> keyof h' b = keyof ?h1 b"
    "\<And>b L. lnk h' b L = (if L = i \<and> b \<in> set as then None else lnk ?h1 b L)"
    by blast
  have "Drop_walk hp h i p ev = Inr (h', ev')"
    using Drop_walk_step [OF a(2,3), of hp ev] h'(1) a(1) by simp
  moreover have "\<forall>b L. lnk h' b L = (if L = i \<and> b \<in> set (a # as) then None else lnk h b L)"
    using h'(4) l1 by auto
  ultimately show ?case using h'(2,3) by simp
qed

lemma Drop_levels_chains:
  assumes "hp < length h" "distinct ls"
    and "\<forall>L \<in> set ls. L < hgt h hp \<and> lchain h L (hp # xs L) \<and> distinct (hp # xs L)"
  shows "\<exists>h' ev'. Drop_levels h hp ls ev = Inr (h', ev') \<and> length h' = length h \<and>
           (\<forall>a. hgt h' a = hgt h a \<and> keyof h' a = keyof h a) \<and>
           (\<forall>a L. lnk h' a L = (if L \<in> set ls \<and> a \<in> set (hp # xs L) then None else lnk h a L))"
  using assms
proof (induction ls arbitrary: h ev)
  case Nil
  then show ?case by simp
next
  case (Cons i ls)
  have i: "i < hgt h hp" "chain h i (lnk h hp i) (xs i)" "hp \<notin> set (xs i)" "distinct (xs i)"
    using Cons.prems(3) by simp_all
  let ?h1 = "set_link h hp i None"
  have l1: "lnk ?h1 b L = (if b = hp \<and> L = i then None else lnk h b L)" for b L
    using lnk_set_link [OF Cons.prems(1) i(1)] by simp
  have "\<forall>b \<in> set (xs i). hgt ?h1 b = hgt h b \<and> lnk ?h1 b i = lnk h b i"
    using l1 i(3) by auto
  then have "chain ?h1 i (lnk h hp i) (xs i)"
    using chain_transfer [OF i(2), of ?h1] by simp
  from Drop_walk_chain [OF this i(4), of hp "ev @ [Detached hp i]"] obtain h2 ev2 where h2:
    "Drop_walk hp ?h1 i (lnk h hp i) (ev @ [Detached hp i]) = Inr (h2, ev2)"
    "length h2 = length h"
    "\<And>b. hgt h2 b = hgt h b \<and> keyof h2 b = keyof h b"
    "\<And>b L. lnk h2 b L = (if L = i \<and> b \<in> set (xs i) then None else lnk ?h1 b L)"
    by auto
  have l2: "lnk h2 b L = (if L = i \<and> b \<in> set (hp # xs i) then None else lnk h b L)" for b L
    using h2(4) [of b L] l1 [of b L] by auto
  have pre: "\<forall>L \<in> set ls. L < hgt h2 hp \<and> lchain h2 L (hp # xs L) \<and> distinct (hp # xs L)"
  proof
    fix L assume L: "L \<in> set ls"
    then have Li: "L \<noteq> i" using Cons.prems(2) by auto
    have o: "L < hgt h hp" "lchain h L (hp # xs L)" "distinct (hp # xs L)"
      using Cons.prems(3) L by simp_all
    have "\<forall>a \<in> set (hp # xs L). hgt h2 a = hgt h a \<and> lnk h2 a L = lnk h a L"
      using h2(3) l2 Li by simp
    then have "lchain h2 L (hp # xs L)"
      using lchain_transfer [OF o(2), of h2] h2(2) by simp
    then show "L < hgt h2 hp \<and> lchain h2 L (hp # xs L) \<and> distinct (hp # xs L)"
      using o h2(3) by simp
  qed
  have "hp < length h2" "distinct ls" using Cons.prems(1,2) h2(2) by simp_all
  from Cons.IH [OF this pre, of ev2] obtain h' ev' where h':
    "Drop_levels h2 hp ls ev2 = Inr (h', ev')" "length h' = length h2"
    "\<And>b. hgt h' b = hgt h2 b \<and> keyof h' b = keyof h2 b"
    "\<And>b L. lnk h' b L = (if L \<in> set ls \<and> b \<in> set (hp # xs L) then None else lnk h2 b L)"
    by blast
  have "Drop_levels h hp (i # ls) ev = Inr (h', ev')"
    using Cons.prems(1) i(1) h2(1) h'(1)
    by (simp add: node_at_def hgt_def set_link_def lnk_def)
  moreover have "\<forall>b L. lnk h' b L =
      (if L \<in> set (i # ls) \<and> b \<in> set (hp # xs L) then None else lnk h b L)"
    using h'(4) l2 by auto
  ultimately show ?case using h'(2,3) h2(2,3) by simp
qed

lemma Clear_traced_store_inv:
  assumes "store_inv cmp M (store s) (header s) ns"
  shows "\<exists>h' ev. Clear_traced M s = Inr (s\<lparr>size' := 0, store := h'\<rparr>, ev) \<and>
           store_inv cmp M h' (header s) [] \<and> length h' = length (store s) \<and>
           (\<forall>a. hgt h' a = hgt (store s) a \<and> keyof h' a = keyof (store s) a) \<and>
           (\<forall>a L. lnk h' a L =
              (if L < M \<and> a \<in> set (header s # lvl (store s) L ns) then None
               else lnk (store s) a L))"
proof -
  let ?h = "store s" and ?hp = "header s"
  have inv: "?hp < length ?h" "hgt ?h ?hp = M" "?hp \<notin> set ns" "distinct ns"
    "\<And>L. L < M \<Longrightarrow> lchain ?h L (?hp # lvl ?h L ns)"
    using assms by (simp_all add: store_inv_def)
  have "\<forall>L \<in> set [0..<M]. L < hgt ?h ?hp \<and> lchain ?h L (?hp # lvl ?h L ns)
      \<and> distinct (?hp # lvl ?h L ns)"
    using inv by (auto simp: lvl_def)
  from Drop_levels_chains [OF inv(1) _ this, of "[]"] obtain h' ev where h':
    "Drop_levels ?h ?hp [0..<M] [] = Inr (h', ev)" "length h' = length ?h"
    "\<And>b. hgt h' b = hgt ?h b \<and> keyof h' b = keyof ?h b"
    "\<And>b L. lnk h' b L =
        (if L \<in> set [0..<M] \<and> b \<in> set (?hp # lvl ?h L ns) then None else lnk ?h b L)"
    by auto
  have 1: "Clear_traced M s = Inr (s\<lparr>size' := 0, store := h'\<rparr>, ev)"
    using h'(1) by (simp add: Clear_traced_def Drop_traced_def)
  have "\<forall>L < M. lchain h' L [?hp]"
    using h'(2,3,4) inv(1,2) by simp
  then have 2: "store_inv cmp M h' ?hp []"
    using h'(2,3) inv(1,2) by (simp add: store_inv_def lvl_def)
  have 3: "\<forall>a L. lnk h' a L =
      (if L < M \<and> a \<in> set (?hp # lvl ?h L ns) then None else lnk ?h a L)"
    using h'(4) by simp
  show ?thesis using 1 2 3 h'(2,3) by blast
qed

lemma Clear_of_traced: "Clear_traced M s = Inr (s', ev) \<Longrightarrow> Clear M s = Inr s'"
  by (simp add: Clear_def Drop_def Clear_traced_def)

lemma Clear_store_inv:
  assumes "store_inv cmp M (store s) (header s) ns"
  shows "\<exists>h'. Clear M s = Inr (s\<lparr>size' := 0, store := h'\<rparr>) \<and>
           store_inv cmp M h' (header s) [] \<and> length h' = length (store s) \<and>
           (\<forall>a. hgt h' a = hgt (store s) a \<and> keyof h' a = keyof (store s) a) \<and>
           (\<forall>a L. lnk h' a L =
              (if L < M \<and> a \<in> set (header s # lvl (store s) L ns) then None
               else lnk (store s) a L))"
  using Clear_traced_store_inv [OF assms] Clear_of_traced by blast

subsection \<open>The events of a walk of Drop\<close>

lemma referenced_iff:
  "referenced h a = (\<exists>b < length h. \<exists>L < hgt h b. lnk h b L = Some a)"
proof
  assume "referenced h a"
  then obtain n where n: "n \<in> set h" "Some a \<in> set (links n)"
    by (auto simp: referenced_def)
  then obtain b where b: "b < length h" "h ! b = n" by (auto simp: in_set_conv_nth)
  from n(2) obtain L where "L < length (links n)" "links n ! L = Some a"
    by (auto simp: in_set_conv_nth)
  then show "\<exists>b < length h. \<exists>L < hgt h b. lnk h b L = Some a"
    using b by (auto simp: hgt_def lnk_def)
next
  assume "\<exists>b < length h. \<exists>L < hgt h b. lnk h b L = Some a"
  then obtain b L where "b < length h" "L < length (links (h ! b))" "links (h ! b) ! L = Some a"
    by (auto simp: hgt_def lnk_def)
  then have "h ! b \<in> set h" "Some a \<in> set (links (h ! b))"
    by (auto simp: in_set_conv_nth)
  then show "referenced h a" by (auto simp: referenced_def)
qed

lemma chain_head_succ:
  "chain h L q as \<Longrightarrow> q = None \<or> q \<in> Some ` set as"
  by (cases as) auto

lemma chain_succ:
  "chain h L p as \<Longrightarrow> b \<in> set as \<Longrightarrow> lnk h b L = None \<or> lnk h b L \<in> Some ` set as"
proof (induction as arbitrary: p)
  case Nil
  then show ?case by simp
next
  case (Cons a as)
  then have c: "chain h L (lnk h a L) as" by simp
  show ?case
  proof (cases "b = a")
    case True
    then show ?thesis using chain_head_succ [OF c] by auto
  next
    case False
    then have "b \<in> set as" using Cons.prems(2) by simp
    from Cons.IH [OF c this] show ?thesis by auto
  qed
qed

lemma elsewhere_set_link:
  assumes "a < length h" "i < hgt h a"
  shows "elsewhere (set_link h a i q) i b = elsewhere h i b"
proof -
  have "(L \<noteq> i \<and> lnk (set_link h a i q) c L = Some b) = (L \<noteq> i \<and> lnk h c L = Some b)" for c L
    using lnk_set_link [OF assms, of q c L] by auto
  then show ?thesis unfolding elsewhere_def by simp
qed

lemma walk_events_cong:
  assumes "\<forall>b \<in> set as. elsewhere h' i b = elsewhere h i b \<and> h' ! b = h ! b"
  shows "walk_events h' i as = walk_events h i as"
proof -
  have "map (\<lambda>a. Detached a i #
                    (if elsewhere h' i a then []
                     else [Destroyed a (held ((h' ! a)\<lparr>links := (links (h' ! a))[i := None]\<rparr>))])) as
      = map (\<lambda>a. Detached a i #
                    (if elsewhere h i a then []
                     else [Destroyed a (held ((h ! a)\<lparr>links := (links (h ! a))[i := None]\<rparr>))])) as"
    using assms by (intro map_cong) auto
  then show ?thesis unfolding walk_events_def by (rule arg_cong)
qed

lemma walk_events_Cons:
  "walk_events h i (a # as) =
     Detached a i #
       (if elsewhere h i a then []
        else [Destroyed a (held ((h ! a)\<lparr>links := (links (h ! a))[i := None]\<rparr>))])
     @ walk_events h i as"
  by (simp add: walk_events_def)

lemma Drop_walk_events:
  assumes "chain h i p as" "distinct as" "hp \<notin> set as"
    and "\<forall>b < length h. i < hgt h b \<longrightarrow> b \<notin> set as \<longrightarrow> lnk h b i \<notin> Some ` set as"
  shows "\<exists>h'. Drop_walk hp h i p ev = Inr (h', ev @ walk_events h i as)"
  using assms
proof (induction as arbitrary: h p ev)
  case Nil
  then have "Drop_walk hp h i p ev = Inr (h, ev)" by (subst Drop_walk.simps) simp
  then show ?case by (simp add: walk_events_def)
next
  case (Cons a as)
  then have a: "p = Some a" "a < length h" "i < hgt h a" "chain h i (lnk h a i) as"
    "a \<notin> set as" "distinct as" "a \<noteq> hp" "hp \<notin> set as"
    by auto
  note P = Cons.prems(4)
  let ?h1 = "set_link h a i None"
  have l1: "lnk ?h1 b L = (if b = a \<and> L = i then None else lnk h b L)" for b L
    using lnk_set_link [OF a(2,3)] by simp
  have nxt: "lnk h a i \<noteq> Some a"
    using chain_head_succ [OF a(4)] a(5) by auto
  have no_i: "lnk ?h1 b i \<noteq> Some a" if b: "b < length h" "i < hgt h b" for b
  proof (cases "b = a")
    case True
    then show ?thesis using l1 by simp
  next
    case False
    show ?thesis
    proof (cases "b \<in> set as")
      case True
      then show ?thesis using chain_succ [OF a(4) True] a(5) l1 False by auto
    next
      case False
      then have "b \<notin> set (a # as)" using \<open>b \<noteq> a\<close> by simp
      then have "lnk h b i \<notin> Some ` set (a # as)" using P b by blast
      then show ?thesis using l1 \<open>b \<noteq> a\<close> by auto
    qed
  qed
  have ref: "referenced ?h1 a = elsewhere h i a"
  proof -
    have "referenced ?h1 a = (\<exists>b < length h. \<exists>L < hgt h b. lnk ?h1 b L = Some a)"
      by (simp add: referenced_iff)
    also have "\<dots> = (\<exists>b < length h. \<exists>L < hgt h b. L \<noteq> i \<and> lnk ?h1 b L = Some a)"
      using no_i by blast
    also have "\<dots> = (\<exists>b < length h. \<exists>L < hgt h b. L \<noteq> i \<and> lnk h b L = Some a)"
      using l1 by auto
    finally show ?thesis by (simp add: elsewhere_def)
  qed
  let ?e = "Detached a i #
      (if elsewhere h i a then []
       else [Destroyed a (held ((h ! a)\<lparr>links := (links (h ! a))[i := None]\<rparr>))])"
  have step: "Drop_walk hp h i p ev = Drop_walk hp ?h1 i (lnk h a i) (ev @ ?e)"
    using Drop_walk_step [OF a(2,3), of hp ev] a(1,7) nxt ref by simp
  have c1: "chain ?h1 i (lnk h a i) as"
  proof -
    have "\<forall>b \<in> set as. hgt ?h1 b = hgt h b \<and> lnk ?h1 b i = lnk h b i"
      using l1 a(5) by auto
    then show ?thesis using chain_transfer [OF a(4), of ?h1] by simp
  qed
  have P1: "\<forall>b < length ?h1. i < hgt ?h1 b \<longrightarrow> b \<notin> set as \<longrightarrow> lnk ?h1 b i \<notin> Some ` set as"
  proof (intro allI impI)
    fix b assume b: "b < length ?h1" "i < hgt ?h1 b" "b \<notin> set as"
    show "lnk ?h1 b i \<notin> Some ` set as"
    proof (cases "b = a")
      case True
      then show ?thesis using l1 by auto
    next
      case False
      then have "b \<notin> set (a # as)" using b(3) by simp
      then have "lnk h b i \<notin> Some ` set (a # as)" using P b by simp
      then show ?thesis using l1 False by auto
    qed
  qed
  from Cons.IH [OF c1 a(6,8) P1, of "ev @ ?e"] obtain h' where h':
    "Drop_walk hp ?h1 i (lnk h a i) (ev @ ?e) = Inr (h', (ev @ ?e) @ walk_events ?h1 i as)"
    by blast
  have "?h1 ! b = h ! b" if "b \<in> set as" for b
  proof -
    have "a \<noteq> b" using that a(5) by auto
    then show ?thesis by (simp add: set_link_def)
  qed
  then have "\<forall>b \<in> set as. elsewhere ?h1 i b = elsewhere h i b \<and> ?h1 ! b = h ! b"
    using elsewhere_set_link [OF a(2,3)] by simp
  then have "walk_events ?h1 i as = walk_events h i as" by (rule walk_events_cong)
  then have "(ev @ ?e) @ walk_events ?h1 i as = ev @ walk_events h i (a # as)"
    by (simp add: walk_events_Cons)
  then show ?case using step h' by simp
qed

subsection \<open>The operations keep the invariant\<close>

lemma SkipList_new_inv: "skiplist_inv cmp M (SkipList_new M k0 g0) []"
  by (simp add: skiplist_inv_def store_inv_def SkipList_new_def SkipNode_new_def hgt_def
      lnk_def lvl_def)

lemma Insert_inv_present:
  assumes "strict_weak_order cmp" "skiplist_inv cmp M s ns"
    and "\<exists>a \<in> set ns. equiv cmp key (keyof (store s) a)"
  shows "Insert cmp gen M s key = Some (Inr (False, s))"
proof -
  have "Contains cmp M s key = Some (Inr True)"
    using Contains_store_inv [OF assms(1), of M s ns key] assms(2,3)
    by (simp add: skiplist_inv_def)
  then show ?thesis by (simp add: Insert_def Insert_traced_def)
qed

lemma Insert_inv_absent:
  assumes "strict_weak_order cmp" "0 < M" "skiplist_inv cmp M s ns"
    and "\<not> (\<exists>a \<in> set ns. equiv cmp key (keyof (store s) a))"
  shows "\<exists>s' lo hi. ns = lo @ hi \<and>
           (\<forall>a \<in> set lo. cmp (keyof (store s) a) key) \<and>
           (\<forall>a \<in> set hi. cmp key (keyof (store s) a)) \<and>
           Insert cmp gen M s key = Some (Inr (True, s')) \<and>
           skiplist_inv cmp M s' (lo @ length (store s) # hi) \<and>
           size' s' = size' s + 1 \<and> header s' = header s \<and>
           rng s' = snd (RandomHeight gen M (rng s)) \<and>
           keyof (store s') (length (store s)) = key \<and>
           (\<forall>a < length (store s). keyof (store s') a = keyof (store s) a)"
proof -
  have inv: "store_inv cmp M (store s) (header s) ns" "size' s = length ns"
    using assms(3) by (simp_all add: skiplist_inv_def)
  obtain lo hi where c: "ns = lo @ hi" "scan_ctx cmp M (store s) (header s) key lo hi"
    using scan_ctx_exists [OF assms(1) inv(1)] by blast
  have ab: "\<not> (\<exists>a \<in> set (lo @ hi). equiv cmp key (keyof (store s) a))"
    using assms(4) c(1) by simp
  let ?height = "fst (RandomHeight gen M (rng s))"
  let ?tr = "splice_calls (store s) (pred_at (store s) (header s) lo) (length (store s))
                 [0..<?height]"
  obtain h' where h':
    "Insert_traced cmp gen M s key =
       Some (Inr (True,
          s\<lparr>store := h', size' := size' s + 1, rng := snd (RandomHeight gen M (rng s))\<rparr>, ?tr))"
    "spliced (store s @ [SkipNode_new ?height key])
       (pred_at (store s) (header s) lo) (length (store s)) ?height h'"
    "store_inv cmp M h' (header s) (lo @ length (store s) # hi)"
    using Insert_traced_absent [OF assms(1,2) c(2) _ ab, of gen] inv(2) c(1) by blast
  let ?s' = "s\<lparr>store := h', size' := size' s + 1, rng := snd (RandomHeight gen M (rng s))\<rparr>"
  have ky: "keyof h' a = keyof (store s @ [SkipNode_new ?height key]) a" for a
    using h'(2) unfolding spliced_def by simp
  have 1: "Insert cmp gen M s key = Some (Inr (True, ?s'))"
    using h'(1) by (simp add: Insert_def)
  have 2: "skiplist_inv cmp M ?s' (lo @ length (store s) # hi)"
    using h'(3) inv(2) c(1) by (simp add: skiplist_inv_def)
  have 3: "keyof (store ?s') (length (store s)) = key"
    using ky store_snoc(5) [of "store s" ?height key] by simp
  have 4: "\<forall>a < length (store s). keyof (store ?s') a = keyof (store s) a"
    using ky by (simp add: store_snoc(2))
  have 5: "\<forall>a \<in> set lo. cmp (keyof (store s) a) key"
    using scan_ctxD(3) [OF c(2)] by blast
  have 6: "\<forall>a \<in> set hi. cmp key (keyof (store s) a)"
    using absent_hi [OF c(2) ab] .
  have "ns = lo @ hi \<and>
           (\<forall>a \<in> set lo. cmp (keyof (store s) a) key) \<and>
           (\<forall>a \<in> set hi. cmp key (keyof (store s) a)) \<and>
           Insert cmp gen M s key = Some (Inr (True, ?s')) \<and>
           skiplist_inv cmp M ?s' (lo @ length (store s) # hi) \<and>
           size' ?s' = size' s + 1 \<and> header ?s' = header s \<and>
           rng ?s' = snd (RandomHeight gen M (rng s)) \<and>
           keyof (store ?s') (length (store s)) = key \<and>
           (\<forall>a < length (store s). keyof (store ?s') a = keyof (store s) a)"
    using c(1) 1 2 3 4 5 6 by simp
  then show ?thesis by blast
qed

lemma Erase_inv_absent:
  assumes "strict_weak_order cmp" "skiplist_inv cmp M s ns"
    and "\<not> (\<exists>a \<in> set ns. equiv cmp key (keyof (store s) a))"
  shows "Erase cmp M s key = Some (Inr (False, s))"
  using Erase_absent [OF assms(1) _ assms(3)] assms(2) by (simp add: skiplist_inv_def)

lemma Erase_inv_present:
  assumes "strict_weak_order cmp" "skiplist_inv cmp M s ns"
    and "\<exists>a \<in> set ns. equiv cmp key (keyof (store s) a)"
  shows "\<exists>s' lo e hi. ns = lo @ e # hi \<and> equiv cmp key (keyof (store s) e) \<and>
           (\<forall>a \<in> set lo. cmp (keyof (store s) a) key) \<and>
           (\<forall>a \<in> set hi. cmp key (keyof (store s) a)) \<and>
           Erase cmp M s key = Some (Inr (True, s')) \<and>
           skiplist_inv cmp M s' (lo @ hi) \<and>
           size' s' = size' s - 1 \<and> header s' = header s \<and> rng s' = rng s \<and>
           length (store s') = length (store s) \<and>
           (\<forall>a. keyof (store s') a = keyof (store s) a) \<and>
           (\<forall>L < hgt (store s) e. lnk (store s') e L = None)"
proof -
  have inv: "store_inv cmp M (store s) (header s) ns" "size' s = length ns"
    using assms(2) by (simp_all add: skiplist_inv_def)
  obtain lo hi0 where c: "ns = lo @ hi0" "scan_ctx cmp M (store s) (header s) key lo hi0"
    using scan_ctx_exists [OF assms(1) inv(1)] by blast
  have "\<exists>a \<in> set (lo @ hi0). equiv cmp key (keyof (store s) a)"
    using assms(3) c(1) by simp
  from present_split [OF c(2) this] obtain e hi where e:
    "hi0 = e # hi" "equiv cmp key (keyof (store s) e)"
    "\<forall>a \<in> set hi. cmp key (keyof (store s) a)"
    by blast
  have ctx: "scan_ctx cmp M (store s) (header s) key lo (e # hi)" using c(2) e(1) by simp
  obtain h' where h':
    "Erase cmp M s key = Some (Inr (True, s\<lparr>store := h', size' := size' s - 1\<rparr>))"
    "unspliced (store s) (pred_at (store s) (header s) lo) e (hgt (store s) e) h'"
    "store_inv cmp M h' (header s) (lo @ hi)"
    using Erase_present [OF assms(1) ctx e(2,3)] by blast
  let ?s' = "s\<lparr>store := h', size' := size' s - 1\<rparr>"
  have u: "length h' = length (store s)" "\<And>a. keyof h' a = keyof (store s) a"
    "\<And>L. L < hgt (store s) e \<Longrightarrow> lnk h' e L = None"
    using h'(2) unfolding unspliced_def by simp_all
  have 2: "skiplist_inv cmp M ?s' (lo @ hi)"
    using h'(3) inv(2) c(1) e(1) by (simp add: skiplist_inv_def)
  have 5: "\<forall>a \<in> set lo. cmp (keyof (store s) a) key"
    using scan_ctxD(3) [OF c(2)] by blast
  have "ns = lo @ e # hi \<and> equiv cmp key (keyof (store s) e) \<and>
           (\<forall>a \<in> set lo. cmp (keyof (store s) a) key) \<and>
           (\<forall>a \<in> set hi. cmp key (keyof (store s) a)) \<and>
           Erase cmp M s key = Some (Inr (True, ?s')) \<and>
           skiplist_inv cmp M ?s' (lo @ hi) \<and>
           size' ?s' = size' s - 1 \<and> header ?s' = header s \<and> rng ?s' = rng s \<and>
           length (store ?s') = length (store s) \<and>
           (\<forall>a. keyof (store ?s') a = keyof (store s) a) \<and>
           (\<forall>L < hgt (store s) e. lnk (store ?s') e L = None)"
    using c(1) e h'(1) 2 5 u by simp
  then show ?thesis by blast
qed

lemma Clear_inv:
  assumes "skiplist_inv cmp M s ns"
  shows "\<exists>s'. Clear M s = Inr s' \<and> skiplist_inv cmp M s' [] \<and> size' s' = 0 \<and>
           header s' = header s \<and> rng s' = rng s \<and>
           length (store s') = length (store s) \<and>
           (\<forall>a. hgt (store s') a = hgt (store s) a \<and> keyof (store s') a = keyof (store s) a) \<and>
           (\<forall>a L. lnk (store s') a L =
              (if L < M \<and> a \<in> set (header s # lvl (store s) L ns) then None
               else lnk (store s) a L))"
proof -
  have "store_inv cmp M (store s) (header s) ns"
    using assms by (simp add: skiplist_inv_def)
  from Clear_store_inv [OF this] obtain h' where h':
    "Clear M s = Inr (s\<lparr>size' := 0, store := h'\<rparr>)"
    "store_inv cmp M h' (header s) []" "length h' = length (store s)"
    "\<forall>a. hgt h' a = hgt (store s) a \<and> keyof h' a = keyof (store s) a"
    "\<forall>a L. lnk h' a L =
       (if L < M \<and> a \<in> set (header s # lvl (store s) L ns) then None else lnk (store s) a L)"
    by blast
  let ?s' = "s\<lparr>size' := 0, store := h'\<rparr>"
  have "Clear M s = Inr ?s' \<and> skiplist_inv cmp M ?s' [] \<and> size' ?s' = 0 \<and>
           header ?s' = header s \<and> rng ?s' = rng s \<and>
           length (store ?s') = length (store s) \<and>
           (\<forall>a. hgt (store ?s') a = hgt (store s) a \<and> keyof (store ?s') a = keyof (store s) a) \<and>
           (\<forall>a L. lnk (store ?s') a L =
              (if L < M \<and> a \<in> set (header s # lvl (store s) L ns) then None
               else lnk (store s) a L))"
    using h' by (simp add: skiplist_inv_def)
  then show ?thesis by blast
qed

subsection \<open>The events of Clear\<close>

lemma lchain_pred:
  "lchain h L (x # xs) \<Longrightarrow> a \<in> set xs \<Longrightarrow> \<exists>b \<in> set (x # xs). lnk h b L = Some a"
proof (induction xs arbitrary: x)
  case Nil
  then show ?case by simp
next
  case (Cons y ys)
  then have c: "lnk h x L = Some y" "lchain h L (y # ys)" by auto
  show ?case
  proof (cases "a = y")
    case True
    then show ?thesis using c(1) by auto
  next
    case False
    then have "a \<in> set ys" using Cons.prems(2) by simp
    from Cons.IH [OF c(2) this] show ?thesis by auto
  qed
qed

lemma lchain_succ:
  assumes "lchain h L (x # xs)" "b \<in> set (x # xs)"
  shows "lnk h b L = None \<or> lnk h b L \<in> Some ` set xs"
proof -
  have c: "chain h L (lnk h x L) xs" using assms(1) by simp
  show ?thesis
  proof (cases "b = x")
    case True
    then show ?thesis using chain_head_succ [OF c] by simp
  next
    case False
    then have "b \<in> set xs" using assms(2) by simp
    then show ?thesis using chain_succ [OF c] by simp
  qed
qed

lemma held_Nil: "(\<forall>p \<in> set (links n). p = None) \<Longrightarrow> held n = []"
  by (simp add: held_def filter_empty_conv)

lemma store_invD:
  assumes "store_inv cmp M h hp ns"
  shows "hp < length h" "hgt h hp = M" "hp \<notin> set ns" "distinct ns"
    "\<And>a. a \<in> set ns \<Longrightarrow> a < length h \<and> 0 < hgt h a \<and> hgt h a \<le> M"
    "\<And>L. L < M \<Longrightarrow> lchain h L (hp # lvl h L ns)"
  using assms by (simp_all add: store_inv_def)

lemma elsewhere_level:
  assumes inv: "store_inv cmp M h hp ns" and G: "garbage_null h hp ns"
    and D: "length hc = length h" "\<And>a. hgt hc a = hgt h a"
      "\<And>a L. lnk hc a L = (if L < n \<and> a \<in> set (hp # lvl h L ns) then None else lnk h a L)"
    and a: "a \<in> set (lvl h n ns)"
  shows "elsewhere hc n a = (hgt h a \<noteq> Suc n)"
proof
  assume "elsewhere hc n a"
  then obtain b L where b: "b < length h" "L < hgt h b" "L \<noteq> n" "lnk hc b L = Some a"
    using D(1,2) by (auto simp: elsewhere_def)
  then have o: "\<not> (L < n \<and> b \<in> set (hp # lvl h L ns))" "lnk h b L = Some a"
    using D(3) [of b L] by (auto split: if_splits)
  have live: "b \<in> set (hp # ns)"
  proof (rule ccontr)
    assume "b \<notin> set (hp # ns)"
    then have "lnk h b L = None" using G b(1,2) unfolding garbage_null_def by blast
    then show False using o(2) by simp
  qed
  then have bl: "b \<in> set (hp # lvl h L ns)" using b(2) by (auto simp: lvl_def)
  have "hgt h b \<le> M"
  proof (cases "b = hp")
    case True
    then show ?thesis using store_invD(2) [OF inv] by simp
  next
    case False
    then have "b \<in> set ns" using live by simp
    then show ?thesis using store_invD(5) [OF inv, of b] by simp
  qed
  then have LM: "L < M" using b(2) by simp
  have "lnk h b L \<in> Some ` set (lvl h L ns)"
    using lchain_succ [OF store_invD(6) [OF inv LM] bl] o(2) by simp
  then have "a \<in> set (lvl h L ns)" using o(2) by auto
  then have "L < hgt h a" by (simp add: lvl_def)
  moreover have "n < L" using o(1) bl b(3) by auto
  ultimately show "hgt h a \<noteq> Suc n" by simp
next
  assume ne: "hgt h a \<noteq> Suc n"
  have an: "a \<in> set ns" "n < hgt h a" using a by (simp_all add: lvl_def)
  then have S: "Suc n < hgt h a" using ne by simp
  then have SM: "Suc n < M" using store_invD(5) [OF inv an(1)] by simp
  have "a \<in> set (lvl h (Suc n) ns)" using an(1) S by (simp add: lvl_def)
  from lchain_pred [OF store_invD(6) [OF inv SM] this] obtain b where
    b: "b \<in> set (hp # lvl h (Suc n) ns)" "lnk h b (Suc n) = Some a"
    by blast
  have bv: "b < length h" "Suc n < hgt h b"
    using lchain_valid [OF store_invD(6) [OF inv SM] b(1)] by simp_all
  have "lnk hc b (Suc n) = Some a" using D(3) [of b "Suc n"] b(2) by simp
  then show "elsewhere hc n a"
    unfolding elsewhere_def using bv D(1,2) by (metis n_not_Suc_n)
qed

lemma held_level:
  assumes D: "\<And>L. L < n \<Longrightarrow> lnk hc a L = None" and "hgt hc a = Suc n"
  shows "held ((hc ! a)\<lparr>links := (links (hc ! a))[n := None]\<rparr>) = []"
proof (rule held_Nil)
  show "\<forall>p \<in> set (links ((hc ! a)\<lparr>links := (links (hc ! a))[n := None]\<rparr>)). p = None"
  proof
    fix p assume "p \<in> set (links ((hc ! a)\<lparr>links := (links (hc ! a))[n := None]\<rparr>))"
    then obtain L where L: "L < length (links (hc ! a))" "p = (links (hc ! a))[n := None] ! L"
      by (auto simp: in_set_conv_nth)
    show "p = None"
    proof (cases "L = n")
      case True
      then show ?thesis using L by simp
    next
      case False
      then have "L < n" using L(1) assms(2) by (simp add: hgt_def)
      then show ?thesis using D [of L] L False by (simp add: lnk_def)
    qed
  qed
qed

lemma Drop_level_events:
  assumes inv: "store_inv cmp M h hp ns" and G: "garbage_null h hp ns"
    and D: "length hc = length h" "\<And>a. hgt hc a = hgt h a"
      "\<And>a L. lnk hc a L = (if L < n \<and> a \<in> set (hp # lvl h L ns) then None else lnk h a L)"
    and n: "n < M"
  shows "\<exists>h2. Drop_walk hp (set_link hc hp n None) n (lnk hc hp n) (ev @ [Detached hp n]) =
              Inr (h2, ev @ level_events h hp ns n) \<and>
            length h2 = length h \<and> (\<forall>a. hgt h2 a = hgt h a) \<and>
            (\<forall>a L. lnk h2 a L =
               (if L < Suc n \<and> a \<in> set (hp # lvl h L ns) then None else lnk h a L))"
proof -
  note i = store_invD [OF inv]
  let ?h1 = "set_link hc hp n None"
  let ?as = "lvl h n ns"
  have hv: "hp < length hc" "n < hgt hc hp" using i(1,2) D(1,2) n by simp_all
  have l1: "lnk ?h1 b L = (if b = hp \<and> L = n then None else lnk hc b L)" for b L
    using lnk_set_link [OF hv] by simp
  have p: "lnk hc hp n = lnk h hp n" using D(3) [of hp n] by simp
  have as: "distinct ?as" "hp \<notin> set ?as" "set ?as \<subseteq> set ns"
    using i(3,4) by (auto simp: lvl_def)
  have c0: "chain h n (lnk h hp n) ?as" using i(6) [OF n] by simp
  have "\<forall>a \<in> set ?as. hgt ?h1 a = hgt h a \<and> lnk ?h1 a n = lnk h a n"
    using l1 as(2) D(2,3) by auto
  then have c1: "chain ?h1 n (lnk hc hp n) ?as"
    using chain_transfer [OF c0, of ?h1] D(1) p by simp
  have P1: "\<forall>b < length ?h1. n < hgt ?h1 b \<longrightarrow> b \<notin> set ?as \<longrightarrow> lnk ?h1 b n \<notin> Some ` set ?as"
  proof (intro allI impI)
    fix b assume b: "b < length ?h1" "n < hgt ?h1 b" "b \<notin> set ?as"
    show "lnk ?h1 b n \<notin> Some ` set ?as"
    proof (cases "b = hp")
      case True
      then show ?thesis using l1 by auto
    next
      case False
      have "b \<notin> set ns" using b(2,3) D(2) by (auto simp: lvl_def)
      then have "b \<notin> set (hp # ns)" using False by simp
      then have "lnk h b n = None"
        using G b(1,2) D(1,2) unfolding garbage_null_def by simp
      then have "lnk ?h1 b n = None" using l1 [of b n] D(3) [of b n] by simp
      then show ?thesis by auto
    qed
  qed
  from Drop_walk_events [OF c1 as(1,2) P1, of "ev @ [Detached hp n]"] obtain h2 where h2:
    "Drop_walk hp ?h1 n (lnk hc hp n) (ev @ [Detached hp n]) =
       Inr (h2, (ev @ [Detached hp n]) @ walk_events ?h1 n ?as)"
    by blast
  from Drop_walk_chain [OF c1 as(1), of hp "ev @ [Detached hp n]"] h2 have st:
    "length h2 = length ?h1" "\<And>b. hgt h2 b = hgt ?h1 b"
    "\<And>b L. lnk h2 b L = (if L = n \<and> b \<in> set ?as then None else lnk ?h1 b L)"
    by auto
  have ev: "walk_events ?h1 n ?as =
      concat (map (\<lambda>a. Detached a n # (if hgt h a = Suc n then [Destroyed a []] else [])) ?as)"
  proof -
    have "Detached a n #
            (if elsewhere ?h1 n a then []
             else [Destroyed a (held ((?h1 ! a)\<lparr>links := (links (?h1 ! a))[n := None]\<rparr>))]) =
          Detached a n # (if hgt h a = Suc n then [Destroyed a []] else [])"
      if a: "a \<in> set ?as" for a
    proof -
      have e: "elsewhere ?h1 n a = (hgt h a \<noteq> Suc n)"
        using elsewhere_set_link [OF hv, of None a] elsewhere_level [OF inv G D a] by simp
      have ahp: "a \<noteq> hp" using a as(2) by auto
      then have same: "?h1 ! a = hc ! a" by (simp add: set_link_def)
      have "held ((hc ! a)\<lparr>links := (links (hc ! a))[n := None]\<rparr>) = []" if t: "hgt h a = Suc n"
      proof (rule held_level)
        show "hgt hc a = Suc n" using t D(2) by simp
        fix L assume L: "L < n"
        have "a \<in> set (lvl h L ns)" using a L t as(3) by (auto simp: lvl_def)
        then show "lnk hc a L = None" using D(3) [of a L] L by simp
      qed
      then show ?thesis using e same by simp
    qed
    then have "map (\<lambda>a. Detached a n #
            (if elsewhere ?h1 n a then []
             else [Destroyed a (held ((?h1 ! a)\<lparr>links := (links (?h1 ! a))[n := None]\<rparr>))])) ?as =
          map (\<lambda>a. Detached a n # (if hgt h a = Suc n then [Destroyed a []] else [])) ?as"
      by (intro map_cong) auto
    then show ?thesis unfolding walk_events_def by (rule arg_cong)
  qed
  have 1: "Drop_walk hp ?h1 n (lnk hc hp n) (ev @ [Detached hp n]) =
      Inr (h2, ev @ level_events h hp ns n)"
    using h2 ev by (simp add: level_events_def)
  have 2: "lnk h2 b L = (if L < Suc n \<and> b \<in> set (hp # lvl h L ns) then None else lnk h b L)"
    for b L
  proof (cases "L = n")
    case True
    then show ?thesis using st(3) [of b L] l1 [of b L] D(3) [of b L] by auto
  next
    case False
    then have "L < Suc n \<longleftrightarrow> L < n" by auto
    then show ?thesis using False st(3) [of b L] l1 [of b L] D(3) [of b L] by simp
  qed
  show ?thesis using 1 2 st(1,2) D(1,2) by simp
qed

lemma Drop_levels_events:
  assumes inv: "store_inv cmp M h hp ns" and G: "garbage_null h hp ns"
  shows "n \<le> M \<Longrightarrow> length hc = length h \<Longrightarrow> (\<And>a. hgt hc a = hgt h a) \<Longrightarrow>
     (\<And>a L. lnk hc a L = (if L < n \<and> a \<in> set (hp # lvl h L ns) then None else lnk h a L)) \<Longrightarrow>
     \<exists>h'. Drop_levels hc hp [n..<M] ev =
             Inr (h', ev @ concat (map (level_events h hp ns) [n..<M]))"
proof (induction "M - n" arbitrary: n hc ev)
  case 0
  then show ?case by simp
next
  case (Suc d)
  then have n: "n < M" by simp
  note i = store_invD [OF inv]
  from Drop_level_events [OF inv G Suc.prems(2,3,4) n, of ev] obtain h2 where h2:
    "Drop_walk hp (set_link hc hp n None) n (lnk hc hp n) (ev @ [Detached hp n]) =
       Inr (h2, ev @ level_events h hp ns n)"
    "length h2 = length h" "\<And>a. hgt h2 a = hgt h a"
    "\<And>a L. lnk h2 a L =
       (if L < Suc n \<and> a \<in> set (hp # lvl h L ns) then None else lnk h a L)"
    by blast
  have "d = M - Suc n" "Suc n \<le> M" using Suc.hyps(2) n by simp_all
  from Suc.hyps(1) [OF this h2(2,3,4), of "ev @ level_events h hp ns n"] obtain h' where h':
    "Drop_levels h2 hp [Suc n..<M] (ev @ level_events h hp ns n) =
       Inr (h', (ev @ level_events h hp ns n) @ concat (map (level_events h hp ns) [Suc n..<M]))"
    by blast
  have hv: "hp < length hc" "n < hgt hc hp" using i(1,2) Suc.prems(2,3) n by simp_all
  have "Drop_levels hc hp (n # [Suc n..<M]) ev =
      Inr (h', ev @ concat (map (level_events h hp ns) (n # [Suc n..<M])))"
    using hv h2(1) h' by (simp add: node_at_def hgt_def set_link_def lnk_def)
  then show ?case using upt_step [OF n] by simp
qed

lemma Clear_traced_events:
  assumes "store_inv cmp M (store s) (header s) ns" "garbage_null (store s) (header s) ns"
  shows "\<exists>s'. Clear_traced M s = Inr (s', teardown_events (store s) (header s) ns M)"
proof -
  from Drop_levels_events [OF assms, of 0 "store s" "[]"] obtain h' where
    "Drop_levels (store s) (header s) [0..<M] [] =
       Inr (h', concat (map (level_events (store s) (header s) ns) [0..<M]))"
    by auto
  then show ?thesis
    by (simp add: Clear_traced_def Drop_traced_def teardown_events_def)
qed

lemma teardown_destroyed:
  assumes inv: "store_inv cmp M h hp ns"
  shows "{a. \<exists>bs. Destroyed a bs \<in> set (teardown_events h hp ns M)} = set ns"
proof (intro set_eqI iffI)
  fix a assume "a \<in> {a. \<exists>bs. Destroyed a bs \<in> set (teardown_events h hp ns M)}"
  then show "a \<in> set ns"
    by (auto simp: teardown_events_def level_events_def lvl_def split: if_splits)
next
  fix a assume a: "a \<in> set ns"
  then have hg: "0 < hgt h a" "hgt h a \<le> M" using store_invD(5) [OF inv] by simp_all
  define L where "L = hgt h a - 1"
  have L: "L < M" "hgt h a = Suc L" using hg by (simp_all add: L_def)
  have "a \<in> set (lvl h L ns)" using a L(2) by (simp add: lvl_def)
  then have "Destroyed a [] \<in> set (level_events h hp ns L)"
    using L(2) by (auto simp: level_events_def)
  then have "Destroyed a [] \<in> set (teardown_events h hp ns M)"
    using L(1) by (auto simp: teardown_events_def)
  then show "a \<in> {a. \<exists>bs. Destroyed a bs \<in> set (teardown_events h hp ns M)}" by blast
qed

subsection \<open>Histories\<close>

lemma equiv_keys_iff:
  assumes "mset (map f ns) = mset ks"
  shows "(\<exists>a \<in> set ns. P (f a)) = (\<exists>x \<in> set ks. P x)"
proof -
  have "set (map f ns) = set ks" using assms by (metis set_mset_mset)
  then have "f ` set ns = set ks" by simp
  then show ?thesis by (metis (no_types, lifting) imageE imageI)
qed

lemma apply_op_inv:
  assumes swo: "strict_weak_order cmp" and M: "0 < M"
    and inv: "skiplist_inv cmp M s ns"
    and ks: "mset (map (keyof (store s)) ns) = mset ks"
  shows "\<exists>s' ns'. apply_op cmp gen M s x = Some (Inr s') \<and> skiplist_inv cmp M s' ns' \<and>
           header s' = header s \<and>
           mset (map (keyof (store s')) ns') = mset (spec_step cmp ks x)"
proof (cases x)
  case (OpInsert key)
  show ?thesis
  proof (cases "\<exists>a \<in> set ns. equiv cmp key (keyof (store s) a)")
    case True
    then have "\<exists>x \<in> set ks. equiv cmp key x"
      using equiv_keys_iff [OF ks, of "equiv cmp key"] by simp
    then have "spec_step cmp ks x = ks" using OpInsert by simp
    moreover have "apply_op cmp gen M s x = Some (Inr s)"
      using Insert_inv_present [OF swo inv True, of gen] OpInsert by (simp add: apply_op_def)
    ultimately show ?thesis using inv ks by auto
  next
    case False
    then have "\<not> (\<exists>x \<in> set ks. equiv cmp key x)"
      using equiv_keys_iff [OF ks, of "equiv cmp key"] by simp
    then have sp: "spec_step cmp ks x = key # ks" using OpInsert by simp
    from Insert_inv_absent [OF swo M inv False, of gen] obtain s' lo hi where s':
      "ns = lo @ hi" "Insert cmp gen M s key = Some (Inr (True, s'))"
      "skiplist_inv cmp M s' (lo @ length (store s) # hi)" "header s' = header s"
      "keyof (store s') (length (store s)) = key"
      "\<forall>a < length (store s). keyof (store s') a = keyof (store s) a"
      by blast
    have "\<forall>a \<in> set ns. a < length (store s)"
      using inv by (simp add: skiplist_inv_def store_inv_def)
    then have "map (keyof (store s')) ns = map (keyof (store s)) ns"
      using s'(6) by (intro map_cong) auto
    then have "mset (map (keyof (store s')) ns) = mset ks" by (simp only: ks)
    then have "mset (map (keyof (store s')) (lo @ length (store s) # hi)) = mset (key # ks)"
      using s'(1,5) by simp
    moreover have "apply_op cmp gen M s x = Some (Inr s')"
      using s'(2) OpInsert by (simp add: apply_op_def)
    ultimately show ?thesis using s'(3,4) sp by auto
  qed
next
  case (OpErase key)
  show ?thesis
  proof (cases "\<exists>a \<in> set ns. equiv cmp key (keyof (store s) a)")
    case False
    then have "\<not> (\<exists>x \<in> set ks. equiv cmp key x)"
      using equiv_keys_iff [OF ks, of "equiv cmp key"] by simp
    then have "filter (\<lambda>x. \<not> equiv cmp key x) ks = ks" by (simp add: filter_id_conv)
    then have "spec_step cmp ks x = ks" using OpErase by simp
    moreover have "apply_op cmp gen M s x = Some (Inr s)"
      using Erase_inv_absent [OF swo inv False] OpErase by (simp add: apply_op_def)
    ultimately show ?thesis using inv ks by auto
  next
    case True
    from Erase_inv_present [OF swo inv True] obtain s' lo e hi where s':
      "ns = lo @ e # hi" "equiv cmp key (keyof (store s) e)"
      "\<forall>a \<in> set lo. cmp (keyof (store s) a) key"
      "\<forall>a \<in> set hi. cmp key (keyof (store s) a)"
      "Erase cmp M s key = Some (Inr (True, s'))"
      "skiplist_inv cmp M s' (lo @ hi)" "header s' = header s"
      "\<forall>a. keyof (store s') a = keyof (store s) a"
      by blast
    have "filter (\<lambda>a. \<not> equiv cmp key (keyof (store s) a)) (lo @ e # hi) = lo @ hi"
      using s'(2,3,4) by (auto simp: equiv_def filter_id_conv)
    then have f: "filter (\<lambda>x. \<not> equiv cmp key x) (map (keyof (store s)) ns) =
        map (keyof (store s)) (lo @ hi)"
      using s'(1) by (simp only: filter_map comp_def)
    have "mset (filter (\<lambda>x. \<not> equiv cmp key x) ks) =
        mset (filter (\<lambda>x. \<not> equiv cmp key x) (map (keyof (store s)) ns))"
      using ks by (simp only: mset_filter)
    then have A: "mset (filter (\<lambda>x. \<not> equiv cmp key x) ks) =
        mset (map (keyof (store s)) (lo @ hi))"
      by (simp only: f)
    have B: "map (keyof (store s')) (lo @ hi) = map (keyof (store s)) (lo @ hi)"
      using s'(8) by (intro map_cong) auto
    have C: "spec_step cmp ks x = filter (\<lambda>x. \<not> equiv cmp key x) ks"
      using OpErase by simp
    have "mset (map (keyof (store s')) (lo @ hi)) = mset (spec_step cmp ks x)"
      by (simp only: A B C)
    moreover have "apply_op cmp gen M s x = Some (Inr s')"
      using s'(5) OpErase by (simp add: apply_op_def)
    ultimately show ?thesis using s'(6,7) by blast
  qed
next
  case OpClear
  from Clear_inv [OF inv] obtain s' where s':
    "Clear M s = Inr s'" "skiplist_inv cmp M s' []" "header s' = header s"
    by blast
  then have "apply_op cmp gen M s x = Some (Inr s')" using OpClear by (simp add: apply_op_def)
  then show ?thesis using s'(2,3) OpClear by auto
qed

lemma run_ops_inv_from:
  assumes swo: "strict_weak_order cmp" and M: "0 < M"
  shows "skiplist_inv cmp M s ns \<Longrightarrow> mset (map (keyof (store s)) ns) = mset ks \<Longrightarrow>
     \<exists>s' ns'. run_ops cmp gen M s xs = Some (Inr s') \<and> skiplist_inv cmp M s' ns' \<and>
        header s' = header s \<and>
        mset (map (keyof (store s')) ns') = mset (foldl (spec_step cmp) ks xs)"
proof (induction xs arbitrary: s ns ks)
  case Nil
  then show ?case by auto
next
  case (Cons x xs)
  from apply_op_inv [OF swo M Cons.prems, of gen x] obtain s1 ns1 where 1:
    "apply_op cmp gen M s x = Some (Inr s1)" "skiplist_inv cmp M s1 ns1"
    "header s1 = header s"
    "mset (map (keyof (store s1)) ns1) = mset (spec_step cmp ks x)"
    by blast
  from Cons.IH [OF 1(2,4)] obtain s' ns' where 2:
    "run_ops cmp gen M s1 xs = Some (Inr s')" "skiplist_inv cmp M s' ns'"
    "header s' = header s1"
    "mset (map (keyof (store s')) ns') = mset (foldl (spec_step cmp) (spec_step cmp ks x) xs)"
    by blast
  have "run_ops cmp gen M s (x # xs) = Some (Inr s')" using 1(1) 2(1) by simp
  then show ?case using 2(2,3,4) 1(3) by auto
qed

lemma run_ops_inv:
  assumes "strict_weak_order cmp" "0 < M"
  shows "\<exists>s ns. run_ops cmp gen M (SkipList_new M k0 g0) xs = Some (Inr s) \<and>
     skiplist_inv cmp M s ns \<and>
     mset (map (keyof (store s)) ns) = mset (spec_live cmp xs)"
proof -
  have "mset (map (keyof (store (SkipList_new M k0 g0))) []) = mset ([] :: 'a list)" by simp
  from run_ops_inv_from [OF assms SkipList_new_inv this, of gen xs]
  show ?thesis unfolding spec_live_def by blast
qed

lemma run_ops_reach:
  assumes "strict_weak_order cmp" "0 < M"
    and "run_ops cmp gen M (SkipList_new M k0 g0) xs = Some (Inr s)"
  shows "\<exists>ns. skiplist_inv cmp M s ns"
  using run_ops_inv [OF assms(1,2), of gen k0 g0 xs] assms(3) by auto

subsection \<open>The invariant and the chains of the levels\<close>

lemma inv_level_chain:
  assumes "skiplist_inv cmp M s ns" "L < M"
  shows "level_chain s L (lvl (store s) L ns)"
  using assms by (simp add: skiplist_inv_def store_inv_def level_chain_def)

lemma inv_level_chain0:
  assumes "skiplist_inv cmp M s ns" "0 < M"
  shows "level_chain s 0 ns"
proof -
  have "lvl (store s) 0 ns = ns"
    using assms(1) by (simp add: skiplist_inv_def store_inv_def lvl_def)
  then show ?thesis using inv_level_chain [OF assms] by simp
qed

lemma level_chain_unique: "level_chain s L as \<Longrightarrow> level_chain s L bs \<Longrightarrow> as = bs"
  unfolding level_chain_def by (rule chain_unique)

lemma inv_sorted:
  assumes "skiplist_inv cmp M s ns"
  shows "sorted_wrt cmp (map (keyof (store s)) (lvl (store s) L ns))"
proof -
  have "sorted_wrt cmp (map (keyof (store s)) ns)"
    using assms by (simp add: skiplist_inv_def store_inv_def)
  then have "sorted_wrt (\<lambda>a b. cmp (keyof (store s) a) (keyof (store s) b)) ns"
    by (simp add: sorted_wrt_map)
  then have "sorted_wrt (\<lambda>a b. cmp (keyof (store s) a) (keyof (store s) b)) (lvl (store s) L ns)"
    unfolding lvl_def by (rule sorted_wrt_filter)
  then show ?thesis by (simp add: sorted_wrt_map)
qed

subsection \<open>Nodes that are not live hold no reference\<close>

lemma SkipList_new_garbage:
  "garbage_null (store (SkipList_new M k0 g0)) (header (SkipList_new M k0 g0)) []"
  by (simp add: garbage_null_def SkipList_new_def)

lemma Insert_garbage:
  assumes ctx: "scan_ctx cmp M h hp key lo hi"
    and sp: "spliced (h @ [SkipNode_new height key]) (pred_at h hp lo) (length h) height h'"
    and G: "garbage_null h hp (lo @ hi)"
  shows "garbage_null h' hp (lo @ length h # hi)"
  unfolding garbage_null_def
proof (intro allI impI)
  fix b L assume b: "b < length h'" "b \<notin> set (hp # lo @ length h # hi)" "L < hgt h' b"
  let ?hn = "h @ [SkipNode_new height key]"
  have len: "length h' = Suc (length h)" and hg: "hgt h' b = hgt ?hn b"
    and lk: "lnk h' b L =
         (if L < height \<and> b = length h then lnk ?hn (pred_at h hp lo L) L
          else if L < height \<and> b = pred_at h hp lo L then Some (length h)
          else lnk ?hn b L)"
    using sp unfolding spliced_def by simp_all
  have bl: "b < length h" using b(1,2) len by auto
  have "pred_at h hp lo L \<in> set (hp # lo)" using pred_at_in(1) [OF ctx] .
  then have "b \<noteq> pred_at h hp lo L" using b(2) by auto
  then have "lnk h' b L = lnk h b L" using lk bl store_snoc(3) [OF bl] by simp
  moreover have "L < hgt h b" using b(3) hg store_snoc(1) [OF bl] by simp
  moreover have "b \<notin> set (hp # lo @ hi)" using b(2) by auto
  ultimately show "lnk h' b L = None" using G bl unfolding garbage_null_def by simp
qed

lemma Erase_garbage:
  assumes ctx: "scan_ctx cmp M h hp key lo (e # hi)"
    and sp: "unspliced h (pred_at h hp lo) e (hgt h e) h'"
    and G: "garbage_null h hp (lo @ e # hi)"
  shows "garbage_null h' hp (lo @ hi)"
  unfolding garbage_null_def
proof (intro allI impI)
  fix b L assume b: "b < length h'" "b \<notin> set (hp # lo @ hi)" "L < hgt h' b"
  have len: "length h' = length h" and hg: "hgt h' b = hgt h b"
    and lk: "lnk h' b L =
         (if L < hgt h e \<and> b = e then None
          else if L < hgt h e \<and> b = pred_at h hp lo L then lnk h e L
          else lnk h b L)"
    using sp unfolding unspliced_def by simp_all
  show "lnk h' b L = None"
  proof (cases "b = e")
    case True
    then show ?thesis using lk b(3) hg by simp
  next
    case False
    have "pred_at h hp lo L \<in> set (hp # lo)" using pred_at_in(1) [OF ctx] .
    then have "b \<noteq> pred_at h hp lo L" using b(2) by auto
    then have "lnk h' b L = lnk h b L" using lk False by simp
    moreover have "b \<notin> set (hp # lo @ e # hi)" using b(2) False by auto
    ultimately show ?thesis using G b(1,3) len hg unfolding garbage_null_def by simp
  qed
qed

lemma Clear_garbage:
  assumes inv: "store_inv cmp M h hp ns" and G: "garbage_null h hp ns"
    and st: "length h' = length h" "\<forall>a. hgt h' a = hgt h a"
      "\<forall>a L. lnk h' a L = (if L < M \<and> a \<in> set (hp # lvl h L ns) then None else lnk h a L)"
  shows "garbage_null h' hp []"
  unfolding garbage_null_def
proof (intro allI impI)
  fix b L assume b: "b < length h'" "b \<notin> set (hp # [])" "L < hgt h' b"
  show "lnk h' b L = None"
  proof (cases "b \<in> set ns")
    case True
    then have "hgt h b \<le> M" using store_invD(5) [OF inv] by simp
    then have "L < M \<and> b \<in> set (hp # lvl h L ns)"
      using True b(3) st(2) by (simp add: lvl_def)
    then show ?thesis using st(3) by simp
  next
    case False
    then have "b \<notin> set (hp # ns)" using b(2) by simp
    then have "lnk h b L = None" using G b(1,3) st(1,2) unfolding garbage_null_def by simp
    then show ?thesis using st(3) by simp
  qed
qed

lemma apply_op_garbage:
  assumes swo: "strict_weak_order cmp" and M: "0 < M"
    and inv: "skiplist_inv cmp M s ns"
    and G: "garbage_null (store s) (header s) ns"
  shows "\<exists>s' ns'. apply_op cmp gen M s x = Some (Inr s') \<and> skiplist_inv cmp M s' ns' \<and>
           garbage_null (store s') (header s') ns'"
proof -
  have si: "store_inv cmp M (store s) (header s) ns" "size' s = length ns"
    using inv by (simp_all add: skiplist_inv_def)
  show ?thesis
  proof (cases x)
    case (OpInsert key)
    show ?thesis
    proof (cases "\<exists>a \<in> set ns. equiv cmp key (keyof (store s) a)")
      case True
      then have "apply_op cmp gen M s x = Some (Inr s)"
        using Insert_inv_present [OF swo inv True, of gen] OpInsert by (simp add: apply_op_def)
      then show ?thesis using inv G by blast
    next
      case False
      obtain lo hi where c: "ns = lo @ hi" "scan_ctx cmp M (store s) (header s) key lo hi"
        using scan_ctx_exists [OF swo si(1)] by blast
      have ab: "\<not> (\<exists>a \<in> set (lo @ hi). equiv cmp key (keyof (store s) a))"
        using False c(1) by simp
      have sz: "size' s = length (lo @ hi)" using si(2) c(1) by simp
      let ?s' = "\<lambda>h'. s\<lparr>store := h', size' := size' s + 1,
                            rng := snd (RandomHeight gen M (rng s))\<rparr>"
      from Insert_traced_absent [OF swo M c(2) sz ab, of gen] obtain h' tr where h':
        "Insert_traced cmp gen M s key = Some (Inr (True, ?s' h', tr))"
        "spliced (store s @ [SkipNode_new (fst (RandomHeight gen M (rng s))) key])
           (pred_at (store s) (header s) lo) (length (store s))
           (fst (RandomHeight gen M (rng s))) h'"
        "store_inv cmp M h' (header s) (lo @ length (store s) # hi)"
        by blast
      have 1: "apply_op cmp gen M s x = Some (Inr (?s' h'))"
        using h'(1) OpInsert by (simp add: apply_op_def Insert_def)
      have 2: "skiplist_inv cmp M (?s' h') (lo @ length (store s) # hi)"
        using h'(3) sz by (simp add: skiplist_inv_def)
      have "garbage_null h' (header s) (lo @ length (store s) # hi)"
        using Insert_garbage [OF c(2) h'(2)] G c(1) by simp
      then have 3: "garbage_null (store (?s' h')) (header (?s' h')) (lo @ length (store s) # hi)"
        by simp
      show ?thesis using 1 2 3 by blast
    qed
  next
    case (OpErase key)
    show ?thesis
    proof (cases "\<exists>a \<in> set ns. equiv cmp key (keyof (store s) a)")
      case False
      then have "apply_op cmp gen M s x = Some (Inr s)"
        using Erase_inv_absent [OF swo inv False] OpErase by (simp add: apply_op_def)
      then show ?thesis using inv G by blast
    next
      case True
      obtain lo hi0 where c: "ns = lo @ hi0" "scan_ctx cmp M (store s) (header s) key lo hi0"
        using scan_ctx_exists [OF swo si(1)] by blast
      have "\<exists>a \<in> set (lo @ hi0). equiv cmp key (keyof (store s) a)"
        using True c(1) by simp
      from present_split [OF c(2) this] obtain e hi where e:
        "hi0 = e # hi" "equiv cmp key (keyof (store s) e)"
        "\<forall>a \<in> set hi. cmp key (keyof (store s) a)"
        by blast
      have ctx: "scan_ctx cmp M (store s) (header s) key lo (e # hi)" using c(2) e(1) by simp
      let ?s' = "\<lambda>h'. s\<lparr>store := h', size' := size' s - 1\<rparr>"
      from Erase_present [OF swo ctx e(2,3)] obtain h' where h':
        "Erase cmp M s key = Some (Inr (True, ?s' h'))"
        "unspliced (store s) (pred_at (store s) (header s) lo) e (hgt (store s) e) h'"
        "store_inv cmp M h' (header s) (lo @ hi)"
        by blast
      have 1: "apply_op cmp gen M s x = Some (Inr (?s' h'))"
        using h'(1) OpErase by (simp add: apply_op_def)
      have 2: "skiplist_inv cmp M (?s' h') (lo @ hi)"
        using h'(3) si(2) c(1) e(1) by (simp add: skiplist_inv_def)
      have "garbage_null h' (header s) (lo @ hi)"
        using Erase_garbage [OF ctx h'(2)] G c(1) e(1) by simp
      then have 3: "garbage_null (store (?s' h')) (header (?s' h')) (lo @ hi)" by simp
      show ?thesis using 1 2 3 by blast
    qed
  next
    case OpClear
    from Clear_traced_store_inv [OF si(1)] obtain h' ev where h':
      "Clear_traced M s = Inr (s\<lparr>size' := 0, store := h'\<rparr>, ev)"
      "store_inv cmp M h' (header s) []" "length h' = length (store s)"
      "\<forall>a. hgt h' a = hgt (store s) a \<and> keyof h' a = keyof (store s) a"
      "\<forall>a L. lnk h' a L =
         (if L < M \<and> a \<in> set (header s # lvl (store s) L ns) then None else lnk (store s) a L)"
      by blast
    let ?s' = "s\<lparr>size' := 0, store := h'\<rparr>"
    have 1: "apply_op cmp gen M s x = Some (Inr ?s')"
      using Clear_of_traced [OF h'(1)] OpClear by (simp add: apply_op_def)
    have 2: "skiplist_inv cmp M ?s' []" using h'(2) by (simp add: skiplist_inv_def)
    have "garbage_null h' (header s) []"
      using Clear_garbage [OF si(1) G h'(3) _ h'(5)] h'(4) by simp
    then have 3: "garbage_null (store ?s') (header ?s') []" by simp
    show ?thesis using 1 2 3 by blast
  qed
qed

lemma run_ops_garbage_from:
  assumes swo: "strict_weak_order cmp" and M: "0 < M"
  shows "skiplist_inv cmp M s ns \<Longrightarrow> garbage_null (store s) (header s) ns \<Longrightarrow>
     \<exists>s' ns'. run_ops cmp gen M s xs = Some (Inr s') \<and> skiplist_inv cmp M s' ns' \<and>
        garbage_null (store s') (header s') ns'"
proof (induction xs arbitrary: s ns)
  case Nil
  then show ?case by auto
next
  case (Cons x xs)
  from apply_op_garbage [OF swo M Cons.prems, of gen x] obtain s1 ns1 where 1:
    "apply_op cmp gen M s x = Some (Inr s1)" "skiplist_inv cmp M s1 ns1"
    "garbage_null (store s1) (header s1) ns1"
    by blast
  from Cons.IH [OF 1(2,3)] obtain s' ns' where 2:
    "run_ops cmp gen M s1 xs = Some (Inr s')" "skiplist_inv cmp M s' ns'"
    "garbage_null (store s') (header s') ns'"
    by blast
  have "run_ops cmp gen M s (x # xs) = Some (Inr s')" using 1(1) 2(1) by simp
  then show ?case using 2(2,3) by blast
qed

lemma run_ops_reach_garbage:
  assumes "strict_weak_order cmp" "0 < M"
    and "run_ops cmp gen M (SkipList_new M k0 g0) xs = Some (Inr s)"
  shows "\<exists>ns. skiplist_inv cmp M s ns \<and> garbage_null (store s) (header s) ns"
  using run_ops_garbage_from [OF assms(1,2) SkipList_new_inv [of cmp M k0 g0]
      SkipList_new_garbage [of M k0 g0], where gen = gen and xs = xs]
    assms(3) by auto

subsection \<open>Sequences of inserts\<close>

lemma equiv_refl: "strict_weak_order cmp \<Longrightarrow> equiv cmp a a"
  by (simp add: equiv_def swo_irrefl)

lemma equiv_sym: "equiv cmp a b = equiv cmp b a"
  by (auto simp: equiv_def)

lemma equiv_trans: "strict_weak_order cmp \<Longrightarrow> equiv cmp a b \<Longrightarrow> equiv cmp b c \<Longrightarrow> equiv cmp a c"
  unfolding strict_weak_order_def by blast

lemma Insert_all_inv:
  assumes swo: "strict_weak_order cmp" and M: "0 < M"
  shows "skiplist_inv cmp M s ns \<Longrightarrow>
     \<exists>bs s' ns'. Insert_all cmp gen M s ks = Some (Inr (bs, s')) \<and> skiplist_inv cmp M s' ns' \<and>
        length bs = length ks \<and> size' s' = size' s + length (filter id bs) \<and>
        (\<forall>q. (\<exists>a \<in> set ns'. equiv cmp q (keyof (store s') a)) =
              ((\<exists>a \<in> set ns. equiv cmp q (keyof (store s) a)) \<or> (\<exists>x \<in> set ks. equiv cmp q x))) \<and>
        ((\<forall>x \<in> set ks. \<not> (\<exists>a \<in> set ns. equiv cmp x (keyof (store s) a))) \<and>
           sorted_wrt (\<lambda>a b. \<not> equiv cmp a b) ks \<longrightarrow> (\<forall>b \<in> set bs. b))"
proof (induction ks arbitrary: s ns)
  case Nil
  then show ?case by auto
next
  case (Cons k ks)
  show ?case
  proof (cases "\<exists>a \<in> set ns. equiv cmp k (keyof (store s) a)")
    case True
    have i: "Insert cmp gen M s k = Some (Inr (False, s))"
      using Insert_inv_present [OF swo Cons.prems True] .
    from Cons.IH [OF Cons.prems] obtain bs s' ns' where r:
      "Insert_all cmp gen M s ks = Some (Inr (bs, s'))" "skiplist_inv cmp M s' ns'"
      "length bs = length ks" "size' s' = size' s + length (filter id bs)"
      "\<And>q. (\<exists>a \<in> set ns'. equiv cmp q (keyof (store s') a)) =
              ((\<exists>a \<in> set ns. equiv cmp q (keyof (store s) a)) \<or> (\<exists>x \<in> set ks. equiv cmp q x))"
      by blast
    have p: "(\<exists>a \<in> set ns'. equiv cmp q (keyof (store s') a)) =
        ((\<exists>a \<in> set ns. equiv cmp q (keyof (store s) a)) \<or> (\<exists>x \<in> set (k # ks). equiv cmp q x))"
      for q
    proof -
      have "\<exists>a \<in> set ns. equiv cmp q (keyof (store s) a)" if "equiv cmp q k"
        using True that equiv_trans [OF swo] by blast
      then show ?thesis using r(5) [of q] by auto
    qed
    have "Insert_all cmp gen M s (k # ks) = Some (Inr (False # bs, s'))"
      using i r(1) by simp
    moreover have "length (False # bs) = length (k # ks)" using r(3) by simp
    moreover have "size' s' = size' s + length (filter id (False # bs))" using r(4) by simp
    moreover have "\<not> (\<forall>x \<in> set (k # ks). \<not> (\<exists>a \<in> set ns. equiv cmp x (keyof (store s) a)))"
      using True by simp
    ultimately show ?thesis using r(2) p by blast
  next
    case False
    from Insert_inv_absent [OF swo M Cons.prems False, of gen] obtain s1 lo hi where s1:
      "ns = lo @ hi" "Insert cmp gen M s k = Some (Inr (True, s1))"
      "skiplist_inv cmp M s1 (lo @ length (store s) # hi)" "size' s1 = size' s + 1"
      "keyof (store s1) (length (store s)) = k"
      "\<forall>a < length (store s). keyof (store s1) a = keyof (store s) a"
      by blast
    let ?ns1 = "lo @ length (store s) # hi"
    have old: "\<forall>a \<in> set ns. a < length (store s)"
      using Cons.prems by (simp add: skiplist_inv_def store_inv_def)
    have p1: "(\<exists>a \<in> set ?ns1. equiv cmp q (keyof (store s1) a)) =
        ((\<exists>a \<in> set ns. equiv cmp q (keyof (store s) a)) \<or> equiv cmp q k)" for q
      using s1(1,5,6) old by auto
    from Cons.IH [OF s1(3)] obtain bs s' ns' where r:
      "Insert_all cmp gen M s1 ks = Some (Inr (bs, s'))" "skiplist_inv cmp M s' ns'"
      "length bs = length ks" "size' s' = size' s1 + length (filter id bs)"
      "\<And>q. (\<exists>a \<in> set ns'. equiv cmp q (keyof (store s') a)) =
              ((\<exists>a \<in> set ?ns1. equiv cmp q (keyof (store s1) a)) \<or> (\<exists>x \<in> set ks. equiv cmp q x))"
      "(\<forall>x \<in> set ks. \<not> (\<exists>a \<in> set ?ns1. equiv cmp x (keyof (store s1) a))) \<and>
           sorted_wrt (\<lambda>a b. \<not> equiv cmp a b) ks \<longrightarrow> (\<forall>b \<in> set bs. b)"
      by blast
    have p: "(\<exists>a \<in> set ns'. equiv cmp q (keyof (store s') a)) =
        ((\<exists>a \<in> set ns. equiv cmp q (keyof (store s) a)) \<or> (\<exists>x \<in> set (k # ks). equiv cmp q x))"
      for q
      using r(5) [of q] p1 [of q] by auto
    have all: "\<forall>b \<in> set (True # bs). b"
      if "\<forall>x \<in> set (k # ks). \<not> (\<exists>a \<in> set ns. equiv cmp x (keyof (store s) a))"
        "sorted_wrt (\<lambda>a b. \<not> equiv cmp a b) (k # ks)"
    proof -
      have "\<forall>x \<in> set ks. \<not> equiv cmp x k" using that(2) equiv_sym [of cmp] by auto
      then have "\<forall>x \<in> set ks. \<not> (\<exists>a \<in> set ?ns1. equiv cmp x (keyof (store s1) a))"
        using that(1) p1 by simp
      then show ?thesis using r(6) that(2) by simp
    qed
    have "Insert_all cmp gen M s (k # ks) = Some (Inr (True # bs, s'))"
      using s1(2) r(1) by simp
    moreover have "length (True # bs) = length (k # ks)" using r(3) by simp
    moreover have "size' s' = size' s + length (filter id (True # bs))"
      using r(4) s1(4) by simp
    ultimately show ?thesis using r(2) p all by blast
  qed
qed

subsection \<open>The example\<close>

lemma ex_swo: "strict_weak_order ((<) :: int \<Rightarrow> int \<Rightarrow> bool)"
  by (auto simp: strict_weak_order_def equiv_def)

lemma ex_run:
  "run_ops (<) ex_gen 2 (SkipList_new 2 0 0) [OpInsert 5, OpInsert 3] = Some (Inr ex_list)"
  by code_simp

lemma ex_chain0: "level_chain ex_list 0 [2, 1]"
  by code_simp

section \<open>The claims\<close>

text \<open>
  C7. With \<open>MaxHeight\<close> at least one, \<open>RandomHeight\<close> returns a height between 1 and
  \<open>MaxHeight\<close>, from any generator state. The height is 1 plus the number of leading
  successful trials among the next \<open>MaxHeight - 1\<close> numbers of the generator, where a
  trial succeeds when the number is divisible by 4: the height grows by one per success
  and stops at the first failure or at \<open>MaxHeight\<close>. The result is a function of the
  generator state, so two runs from the same seed produce the same heights.
\<close>

theorem RandomHeight_range:
  assumes "0 < MaxHeight"
  shows "1 \<le> fst (RandomHeight gen MaxHeight g) \<and> fst (RandomHeight gen MaxHeight g) \<le> MaxHeight \<and>
         fst (RandomHeight gen MaxHeight g) =
           1 + length (takeWhile (\<lambda>r. r mod 4 = 0) (draws gen g (MaxHeight - 1)))"
proof -
  have "fst (RandomHeight gen MaxHeight g) =
      1 + length (takeWhile (\<lambda>r. r mod 4 = 0) (draws gen g (MaxHeight - 1)))"
    using RandomHeight_loop_draws [of 1 MaxHeight gen g] assms by (simp add: RandomHeight_def)
  then show ?thesis
    using RandomHeight_bounds [OF assms, of gen g] by simp
qed

theorem RandomHeight_range_witness:
  "(0::nat) < 3 \<and> fst (RandomHeight (\<lambda>g::nat. (4 * g, g + 1)) 3 7) = 3"
proof -
  have "(0::nat) < 3" by simp
  from RandomHeight_range [OF this, of "\<lambda>g::nat. (4 * g, g + 1)" 7]
  show ?thesis by (simp add: numeral_2_eq_2)
qed

text \<open>
  C8. \<open>Next\<close> and \<open>SetNext\<close> fail exactly when the level is not below the height of the
  node, with the out-of-range fault for this level. Below the height, \<open>Next\<close> returns the
  stored forward reference, and \<open>SetNext\<close> returns the node with the given reference at this
  level and every other link, the height and the key as before. The level is used as it
  is: no other slot is read or written.
\<close>

theorem Next_SetNext_range:
  "((\<exists>e. Next level n = Inl e) = (level \<ge> Height n)) \<and>
   ((\<exists>e. SetNext level q n = Inl e) = (level \<ge> Height n)) \<and>
   Next level n = (if level \<ge> Height n then Inl (OutOfRange level) else Inr (links n ! level)) \<and>
   SetNext level q n =
     (if level \<ge> Height n then Inl (OutOfRange level)
      else Inr (n\<lparr>links := (links n)[level := q]\<rparr>)) \<and>
   (\<forall>n'. SetNext level q n = Inr n' \<longrightarrow>
      Next level n' = Inr q \<and> Height n' = Height n \<and> Key n' = Key n \<and>
      (\<forall>l. l \<noteq> level \<longrightarrow> Next l n' = Next l n))"
  by (auto simp: Next_def SetNext_def Height_def Key_def)

theorem Next_SetNext_range_witness:
  "Next 1 \<lparr>links = [None, Some 3], nkey = 5::int\<rparr> = Inr (Some 3) \<and>
   Next 2 \<lparr>links = [None, Some 3], nkey = 5::int\<rparr> = Inl (OutOfRange 2) \<and>
   SetNext 0 (Some 4) \<lparr>links = [None, Some 3], nkey = 5::int\<rparr> =
     Inr \<lparr>links = [Some 4, Some 3], nkey = 5\<rparr> \<and>
   Next 0 \<lparr>links = [Some 4, Some 3], nkey = 5::int\<rparr> = Inr (Some 4) \<and>
   SetNext 2 (Some 4) \<lparr>links = [None, Some 3], nkey = 5::int\<rparr> = Inl (OutOfRange 2)"
  using Next_SetNext_range [of 1 "\<lparr>links = [None, Some 3], nkey = 5::int\<rparr>" None]
    Next_SetNext_range [of 2 "\<lparr>links = [None, Some 3], nkey = 5::int\<rparr>" "Some 4"]
    Next_SetNext_range [of 0 "\<lparr>links = [None, Some 3], nkey = 5::int\<rparr>" "Some 4"]
  by (simp add: Height_def)

text \<open>
  C3. When \<open>Contains\<close> holds for the key, \<open>Insert\<close> returns false and the container it
  leaves is the one it was given: the store, the count and the generator are unchanged, and
  no link was set.
\<close>

theorem Insert_present:
  assumes "Contains compare MaxHeight s key = Some (Inr True)"
  shows "Insert compare gen MaxHeight s key = Some (Inr (False, s)) \<and>
         Insert_traced compare gen MaxHeight s key = Some (Inr (False, s, []))"
  using assms by (simp add: Insert_def Insert_traced_def)

theorem Insert_present_witness:
  "Contains (<) 2
     \<lparr>header = 0,
        store = [\<lparr>links = [Some 1, None], nkey = 0\<rparr>, \<lparr>links = [None], nkey = 5\<rparr>],
        size' = 1, rng = (7::nat)\<rparr> (5::int) = Some (Inr True) \<and>
   Insert (<) (\<lambda>g. (4 * g, g + 1)) 2
     \<lparr>header = 0,
        store = [\<lparr>links = [Some 1, None], nkey = 0\<rparr>, \<lparr>links = [None], nkey = 5\<rparr>],
        size' = 1, rng = (7::nat)\<rparr> (5::int) =
   Some (Inr (False,
     \<lparr>header = 0,
        store = [\<lparr>links = [Some 1, None], nkey = 0\<rparr>, \<lparr>links = [None], nkey = 5\<rparr>],
        size' = 1, rng = 7\<rparr>))"
proof -
  have c: "Contains (<) 2
     \<lparr>header = 0,
        store = [\<lparr>links = [Some 1, None], nkey = 0\<rparr>, \<lparr>links = [None], nkey = 5\<rparr>],
        size' = 1, rng = (7::nat)\<rparr> (5::int) = Some (Inr True)"
    by code_simp
  from Insert_present [OF c, of "\<lambda>g. (4 * g, g + 1)"] c show ?thesis by simp
qed

text \<open>
  C1. After any history of \<open>Insert\<close>, \<open>Erase\<close> and \<open>Clear\<close> from the empty container the
  run has returned a container, and at every level below \<open>MaxHeight\<close> the chain from the
  header exists and its keys ascend strictly under the comparator. The keys of the chain
  of level 0 are, as a multiset, the live keys of the history; no two entries of this
  chain are equivalent, and the count is the length of the chain.
  The comparator is a strict weak ordering and \<open>MaxHeight\<close> is positive.
\<close>

theorem level_chains_ascending:
  assumes "strict_weak_order compare" "0 < MaxHeight"
  shows "\<exists>s. run_ops compare gen MaxHeight (SkipList_new MaxHeight k0 g0) xs = Some (Inr s) \<and>
     (\<forall>L < MaxHeight. \<exists>as. level_chain s L as \<and>
          sorted_wrt compare (map (keyof (store s)) as)) \<and>
     (\<exists>as. level_chain s 0 as \<and>
          mset (map (keyof (store s)) as) = mset (spec_live compare xs) \<and>
          (\<forall>i < length as. \<forall>j < length as. i \<noteq> j \<longrightarrow>
              \<not> equiv compare (keyof (store s) (as ! i)) (keyof (store s) (as ! j))) \<and>
          Size s = length as)"
proof -
  obtain s ns where s:
    "run_ops compare gen MaxHeight (SkipList_new MaxHeight k0 g0) xs = Some (Inr s)"
    "skiplist_inv compare MaxHeight s ns"
    "mset (map (keyof (store s)) ns) = mset (spec_live compare xs)"
    using run_ops_inv [OF assms, of gen k0 g0 xs] by blast
  have 1: "\<forall>L < MaxHeight. \<exists>as. level_chain s L as \<and>
      sorted_wrt compare (map (keyof (store s)) as)"
    using inv_level_chain [OF s(2)] inv_sorted [OF s(2)] by blast
  have srt: "sorted_wrt compare (map (keyof (store s)) ns)"
    using s(2) by (simp add: skiplist_inv_def store_inv_def)
  have nd: "\<not> equiv compare (keyof (store s) (ns ! i)) (keyof (store s) (ns ! j))"
    if "i < length ns" "j < length ns" "i \<noteq> j" for i j
  proof -
    have lt: "compare (keyof (store s) (ns ! a)) (keyof (store s) (ns ! b))"
      if "a < b" "b < length ns" for a b
      using sorted_wrt_nth_less [OF srt, of a b] that by simp
    from that consider "i < j" | "j < i" by linarith
    then show ?thesis
      using lt [of i j] lt [of j i] that by cases (auto simp: equiv_def)
  qed
  have "level_chain s 0 ns \<and>
          mset (map (keyof (store s)) ns) = mset (spec_live compare xs) \<and>
          (\<forall>i < length ns. \<forall>j < length ns. i \<noteq> j \<longrightarrow>
              \<not> equiv compare (keyof (store s) (ns ! i)) (keyof (store s) (ns ! j))) \<and>
          Size s = length ns"
    using inv_level_chain0 [OF s(2) assms(2)] s(2,3) nd
    by (simp add: Size_def skiplist_inv_def)
  then show ?thesis using s(1) 1 by blast
qed

theorem level_chains_ascending_witness:
  "strict_weak_order ((<) :: int \<Rightarrow> int \<Rightarrow> bool) \<and> (0::nat) < 2 \<and>
   (\<exists>s. run_ops (<) ex_gen 2 (SkipList_new 2 (0::int) 0) [OpInsert 5, OpInsert 3, OpErase 5]
          = Some (Inr s) \<and>
     (\<forall>L < 2. \<exists>as. level_chain s L as \<and> sorted_wrt (<) (map (keyof (store s)) as)) \<and>
     (\<exists>as. level_chain s 0 as \<and>
          mset (map (keyof (store s)) as)
            = mset (spec_live (<) [OpInsert 5, OpInsert 3, OpErase 5]) \<and>
          (\<forall>i < length as. \<forall>j < length as. i \<noteq> j \<longrightarrow>
              \<not> equiv (<) (keyof (store s) (as ! i)) (keyof (store s) (as ! j))) \<and>
          Size s = length as))"
proof -
  have "(0::nat) < 2" by simp
  from level_chains_ascending [OF ex_swo this, of ex_gen 0 0 "[OpInsert 5, OpInsert 3, OpErase 5]"]
    ex_swo
  show ?thesis by simp
qed

text \<open>
  C4. In a reachable container, when no node of the level-0 chain has a key equivalent to
  the given key, \<open>Erase\<close> returns false and the container it leaves is the one it was
  given: store, count and generator are unchanged.
\<close>

theorem Erase_absent_key:
  assumes "strict_weak_order compare" "0 < MaxHeight"
    and "run_ops compare gen MaxHeight (SkipList_new MaxHeight k0 g0) xs = Some (Inr s)"
    and "level_chain s 0 as"
    and "\<forall>a \<in> set as. \<not> equiv compare key (keyof (store s) a)"
  shows "Erase compare MaxHeight s key = Some (Inr (False, s))"
proof -
  obtain ns where ns: "skiplist_inv compare MaxHeight s ns"
    using run_ops_reach [OF assms(1,2,3)] by blast
  have "as = ns"
    using level_chain_unique [OF assms(4) inv_level_chain0 [OF ns assms(2)]] .
  then show ?thesis
    using Erase_inv_absent [OF assms(1) ns, of key] assms(5) by simp
qed

theorem Erase_absent_key_witness:
  "strict_weak_order ((<) :: int \<Rightarrow> int \<Rightarrow> bool) \<and> (0::nat) < 2 \<and>
   run_ops (<) ex_gen 2 (SkipList_new 2 0 0) [OpInsert 5, OpInsert 3] = Some (Inr ex_list) \<and>
   level_chain ex_list 0 [2, 1] \<and>
   \<not> equiv (<) 4 (keyof (store ex_list) 2) \<and> \<not> equiv (<) 4 (keyof (store ex_list) 1) \<and>
   Erase (<) 2 ex_list 4 = Some (Inr (False, ex_list))"
proof -
  have M: "(0::nat) < 2" by simp
  have k: "\<not> equiv (<) 4 (keyof (store ex_list) 2)" "\<not> equiv (<) 4 (keyof (store ex_list) 1)"
    by (simp_all add: equiv_def keyof_def ex_list_def)
  then have "\<forall>a \<in> set [2, 1]. \<not> equiv (<) 4 (keyof (store ex_list) a)" by simp
  from Erase_absent_key [OF ex_swo M ex_run ex_chain0 this] ex_swo ex_run ex_chain0 k
  show ?thesis by simp
qed

text \<open>
  C10. In a reachable container \<open>Contains\<close>, \<open>Insert\<close> and \<open>Erase\<close> return a result for
  every key. In the model a call of \<open>Next\<close> or \<open>SetNext\<close> with a level that is not below
  the height of the node makes the operation end with the out-of-range fault, so a
  returned result means that no such call was made.
\<close>

theorem no_level_out_of_range:
  assumes "strict_weak_order compare" "0 < MaxHeight"
    and "run_ops compare gen MaxHeight (SkipList_new MaxHeight k0 g0) xs = Some (Inr s)"
  shows "(\<exists>b. Contains compare MaxHeight s key = Some (Inr b)) \<and>
         (\<exists>b s' tr. Insert_traced compare gen MaxHeight s key = Some (Inr (b, s', tr))) \<and>
         (\<exists>b s'. Insert compare gen MaxHeight s key = Some (Inr (b, s'))) \<and>
         (\<exists>b s'. Erase compare MaxHeight s key = Some (Inr (b, s')))"
proof -
  obtain ns where ns: "skiplist_inv compare MaxHeight s ns"
    using run_ops_reach [OF assms(1,2,3)] by blast
  have si: "store_inv compare MaxHeight (store s) (header s) ns"
    using ns by (simp add: skiplist_inv_def)
  have 1: "\<exists>b. Contains compare MaxHeight s key = Some (Inr b)"
    using Contains_store_inv [OF assms(1) si, of key] by blast
  have 2: "\<exists>b s'. Insert compare gen MaxHeight s key = Some (Inr (b, s'))"
  proof (cases "\<exists>a \<in> set ns. equiv compare key (keyof (store s) a)")
    case True
    then show ?thesis using Insert_inv_present [OF assms(1) ns, of key gen] by blast
  next
    case False
    then show ?thesis using Insert_inv_absent [OF assms(1,2) ns, of key gen] by blast
  qed
  then have 3: "\<exists>b s' tr. Insert_traced compare gen MaxHeight s key = Some (Inr (b, s', tr))"
    by (auto simp: Insert_def split: option.splits sum.splits)
  have 4: "\<exists>b s'. Erase compare MaxHeight s key = Some (Inr (b, s'))"
  proof (cases "\<exists>a \<in> set ns. equiv compare key (keyof (store s) a)")
    case True
    then show ?thesis using Erase_inv_present [OF assms(1) ns, of key] by blast
  next
    case False
    then show ?thesis using Erase_inv_absent [OF assms(1) ns, of key] by blast
  qed
  show ?thesis using 1 2 3 4 by blast
qed

theorem no_level_out_of_range_witness:
  "strict_weak_order ((<) :: int \<Rightarrow> int \<Rightarrow> bool) \<and> (0::nat) < 2 \<and>
   run_ops (<) ex_gen 2 (SkipList_new 2 0 0) [OpInsert 5, OpInsert 3] = Some (Inr ex_list) \<and>
   (\<exists>b. Contains (<) 2 ex_list 4 = Some (Inr b)) \<and>
   (\<exists>b s' tr. Insert_traced (<) ex_gen 2 ex_list 4 = Some (Inr (b, s', tr))) \<and>
   (\<exists>b s'. Insert (<) ex_gen 2 ex_list 4 = Some (Inr (b, s'))) \<and>
   (\<exists>b s'. Erase (<) 2 ex_list 4 = Some (Inr (b, s')))"
proof -
  have M: "(0::nat) < 2" by simp
  from no_level_out_of_range [OF ex_swo M ex_run, of 4] ex_swo ex_run
  show ?thesis by simp
qed

text \<open>
  C6. \<open>Clear\<close> on a reachable container returns a container with \<open>Size\<close> 0 and \<open>Empty\<close>
  true, in which \<open>Contains\<close> is false for every key and the chain of every level is
  empty; the header and each node that was on the chain of a level have a null link at
  this level. The teardown is the sequence of events of \<open>Clear_traced\<close>, of which \<open>Clear\<close>
  is the projection. With \<open>as\<close> the level-0 chain before the call, the chain of level \<open>L\<close> is
  \<open>lvl (store s) L as\<close>, and the events are, level after level from 0 to
  \<open>MaxHeight - 1\<close>: the link of the header at the level is detached, then the link at the
  level of each node of the chain of the level, in the order of the chain, one link per
  round of the walk; a node is destroyed in the round that detaches its link at its
  topmost level, and at no other moment. The nodes destroyed are those of the level-0
  chain, and every node is destroyed holding no reference: no destructor releases a
  further node, so the chain is never released as a nested cascade.
\<close>

theorem Clear_resets:
  assumes "strict_weak_order compare" "0 < MaxHeight"
    and "run_ops compare gen MaxHeight (SkipList_new MaxHeight k0 g0) xs = Some (Inr s)"
  shows "\<exists>s' as ev. level_chain s 0 as \<and>
           (\<forall>L < MaxHeight. level_chain s L (lvl (store s) L as)) \<and>
           Clear_traced MaxHeight s = Inr (s', ev) \<and>
           ev = teardown_events (store s) (header s) as MaxHeight \<and>
           (\<forall>a bs. Destroyed a bs \<in> set ev \<longrightarrow> bs = []) \<and>
           {a. \<exists>bs. Destroyed a bs \<in> set ev} = set as \<and>
           Clear MaxHeight s = Inr s' \<and> Size s' = 0 \<and> Empty s' \<and>
           (\<forall>key. Contains compare MaxHeight s' key = Some (Inr False)) \<and>
           (\<forall>L < MaxHeight. level_chain s' L []) \<and>
           (\<forall>L < MaxHeight. \<forall>bs. level_chain s L bs \<longrightarrow>
               (\<forall>a \<in> set (header s # bs). lnk (store s') a L = None))"
proof -
  obtain ns where ns: "skiplist_inv compare MaxHeight s ns"
    and G: "garbage_null (store s) (header s) ns"
    using run_ops_reach_garbage [OF assms(1,2,3)] by blast
  have sinv: "store_inv compare MaxHeight (store s) (header s) ns"
    using ns by (simp add: skiplist_inv_def)
  let ?ev = "teardown_events (store s) (header s) ns MaxHeight"
  from Clear_traced_events [OF sinv G] obtain s' where tr:
    "Clear_traced MaxHeight s = Inr (s', ?ev)"
    by blast
  have cl: "Clear MaxHeight s = Inr s'" using Clear_of_traced [OF tr] .
  from Clear_inv [OF ns] cl have s':
    "skiplist_inv compare MaxHeight s' []" "size' s' = 0"
    "\<forall>a L. lnk (store s') a L =
       (if L < MaxHeight \<and> a \<in> set (header s # lvl (store s) L ns) then None
        else lnk (store s) a L)"
    by auto
  have si: "store_inv compare MaxHeight (store s') (header s') []"
    using s'(1) by (simp add: skiplist_inv_def)
  have 0: "level_chain s 0 ns" using inv_level_chain0 [OF ns assms(2)] .
  have 1: "\<forall>L < MaxHeight. level_chain s L (lvl (store s) L ns)"
    using inv_level_chain [OF ns] by simp
  have 2: "\<forall>a bs. Destroyed a bs \<in> set ?ev \<longrightarrow> bs = []"
    by (auto simp: teardown_events_def level_events_def split: if_splits)
  have 3: "\<forall>key. Contains compare MaxHeight s' key = Some (Inr False)"
    using Contains_store_inv [OF assms(1) si] by simp
  have 4: "\<forall>L < MaxHeight. level_chain s' L []"
    using inv_level_chain [OF s'(1)] by (simp add: lvl_def)
  have 5: "\<forall>L < MaxHeight. \<forall>bs. level_chain s L bs \<longrightarrow>
      (\<forall>a \<in> set (header s # bs). lnk (store s') a L = None)"
  proof (intro allI impI)
    fix L bs assume L: "L < MaxHeight" and bs: "level_chain s L bs"
    have "bs = lvl (store s) L ns"
      using level_chain_unique [OF bs inv_level_chain [OF ns L]] .
    then show "\<forall>a \<in> set (header s # bs). lnk (store s') a L = None"
      using s'(3) L by simp
  qed
  have 6: "Size s' = 0 \<and> Empty s'" using s'(2) by (simp add: Size_def Empty_def)
  have 7: "{a. \<exists>bs. Destroyed a bs \<in> set ?ev} = set ns"
    using teardown_destroyed [OF sinv] .
  have "level_chain s 0 ns \<and>
           (\<forall>L < MaxHeight. level_chain s L (lvl (store s) L ns)) \<and>
           Clear_traced MaxHeight s = Inr (s', ?ev) \<and>
           ?ev = teardown_events (store s) (header s) ns MaxHeight \<and>
           (\<forall>a bs. Destroyed a bs \<in> set ?ev \<longrightarrow> bs = []) \<and>
           {a. \<exists>bs. Destroyed a bs \<in> set ?ev} = set ns \<and>
           Clear MaxHeight s = Inr s' \<and> Size s' = 0 \<and> Empty s' \<and>
           (\<forall>key. Contains compare MaxHeight s' key = Some (Inr False)) \<and>
           (\<forall>L < MaxHeight. level_chain s' L []) \<and>
           (\<forall>L < MaxHeight. \<forall>bs. level_chain s L bs \<longrightarrow>
               (\<forall>a \<in> set (header s # bs). lnk (store s') a L = None))"
    using 0 1 tr 2 7 cl 6 3 4 5 by simp
  then show ?thesis by blast
qed

theorem Clear_resets_witness:
  "strict_weak_order ((<) :: int \<Rightarrow> int \<Rightarrow> bool) \<and> (0::nat) < 2 \<and>
   run_ops (<) ex_gen 2 (SkipList_new 2 0 0) [OpInsert 5, OpInsert 3] = Some (Inr ex_list) \<and>
   (\<exists>s'. Clear_traced 2 ex_list =
            Inr (s', [Detached 0 0, Detached 2 0, Destroyed 2 [], Detached 1 0,
                      Detached 0 1, Detached 1 1, Destroyed 1 []]) \<and>
          Clear 2 ex_list = Inr s' \<and> Size s' = 0 \<and> Empty s' \<and>
          Contains (<) 2 s' 5 = Some (Inr False) \<and> Contains (<) 2 s' 3 = Some (Inr False) \<and>
          level_chain s' 0 [] \<and> level_chain s' 1 [])"
proof -
  have M: "(0::nat) < 2" by simp
  from Clear_resets [OF ex_swo M ex_run] obtain s' as ev where s':
    "level_chain ex_list 0 as"
    "Clear_traced 2 ex_list = Inr (s', teardown_events (store ex_list) (header ex_list) as 2)"
    "Clear 2 ex_list = Inr s'" "Size s' = 0" "Empty s'"
    "\<forall>key. Contains (<) 2 s' key = Some (Inr False)" "\<forall>L < 2. level_chain s' L []"
    by blast
  have as: "as = [2, 1]" using level_chain_unique [OF s'(1) ex_chain0] .
  have ev: "teardown_events (store ex_list) (header ex_list) [2, 1] 2 =
      [Detached 0 0, Detached 2 0, Destroyed 2 [], Detached 1 0,
       Detached 0 1, Detached 1 1, Destroyed 1 []]"
    by code_simp
  have "Clear_traced 2 ex_list =
            Inr (s', [Detached 0 0, Detached 2 0, Destroyed 2 [], Detached 1 0,
                      Detached 0 1, Detached 1 1, Destroyed 1 []]) \<and>
          Clear 2 ex_list = Inr s' \<and> Size s' = 0 \<and> Empty s' \<and>
          Contains (<) 2 s' 5 = Some (Inr False) \<and> Contains (<) 2 s' 3 = Some (Inr False) \<and>
          level_chain s' 0 [] \<and> level_chain s' 1 []"
    using s'(2-7) as ev by simp
  then show ?thesis using ex_swo ex_run M by blast
qed

text \<open>
  C2. In a reachable container, when no node of the level-0 chain has a key equivalent to
  the given key, \<open>Insert\<close> returns true, the count grows by exactly one, and \<open>Contains\<close>
  holds for the key afterwards. For every sequence of keys inserted in turn into the
  empty container, every call returns, \<open>Size\<close> is the number of calls that returned true,
  and \<open>Contains\<close> holds for every key of the sequence; when the keys are pairwise
  inequivalent every call returns true and \<open>Size\<close> is the length of the sequence.
\<close>

theorem Insert_absent_key:
  assumes "strict_weak_order compare" "0 < MaxHeight"
    and "run_ops compare gen MaxHeight (SkipList_new MaxHeight k0 g0) xs = Some (Inr s)"
    and "level_chain s 0 as"
    and "\<forall>a \<in> set as. \<not> equiv compare key (keyof (store s) a)"
  shows "(\<exists>s'. Insert compare gen MaxHeight s key = Some (Inr (True, s')) \<and>
            Size s' = Size s + 1 \<and> Contains compare MaxHeight s' key = Some (Inr True)) \<and>
         (\<forall>keys. \<exists>bs s'.
            Insert_all compare gen MaxHeight (SkipList_new MaxHeight k0 g0) keys
              = Some (Inr (bs, s')) \<and>
            length bs = length keys \<and> Size s' = length (filter id bs) \<and>
            (\<forall>k \<in> set keys. Contains compare MaxHeight s' k = Some (Inr True)) \<and>
            (sorted_wrt (\<lambda>a b. \<not> equiv compare a b) keys \<longrightarrow>
               (\<forall>b \<in> set bs. b) \<and> Size s' = length keys))"
proof
  obtain ns where ns: "skiplist_inv compare MaxHeight s ns"
    using run_ops_reach [OF assms(1,2,3)] by blast
  have "as = ns"
    using level_chain_unique [OF assms(4) inv_level_chain0 [OF ns assms(2)]] .
  then have ab: "\<not> (\<exists>a \<in> set ns. equiv compare key (keyof (store s) a))"
    using assms(5) by simp
  from Insert_inv_absent [OF assms(1,2) ns ab, of gen] obtain s' lo hi where s':
    "Insert compare gen MaxHeight s key = Some (Inr (True, s'))"
    "skiplist_inv compare MaxHeight s' (lo @ length (store s) # hi)"
    "size' s' = size' s + 1" "keyof (store s') (length (store s)) = key"
    by blast
  have "store_inv compare MaxHeight (store s') (header s') (lo @ length (store s) # hi)"
    using s'(2) by (simp add: skiplist_inv_def)
  from Contains_store_inv [OF assms(1) this, of key]
  have "Contains compare MaxHeight s' key = Some (Inr True)"
    using s'(4) equiv_refl [OF assms(1), of key] by auto
  then show "\<exists>s'. Insert compare gen MaxHeight s key = Some (Inr (True, s')) \<and>
      Size s' = Size s + 1 \<and> Contains compare MaxHeight s' key = Some (Inr True)"
    using s'(1,3) by (auto simp: Size_def)
next
  show "\<forall>keys. \<exists>bs s'.
            Insert_all compare gen MaxHeight (SkipList_new MaxHeight k0 g0) keys
              = Some (Inr (bs, s')) \<and>
            length bs = length keys \<and> Size s' = length (filter id bs) \<and>
            (\<forall>k \<in> set keys. Contains compare MaxHeight s' k = Some (Inr True)) \<and>
            (sorted_wrt (\<lambda>a b. \<not> equiv compare a b) keys \<longrightarrow>
               (\<forall>b \<in> set bs. b) \<and> Size s' = length keys)"
  proof
    fix keys
    let ?e = "SkipList_new MaxHeight k0 g0 :: ('a, 'b) SkipList"
    from Insert_all_inv [OF assms(1,2) SkipList_new_inv [of compare MaxHeight k0 g0],
        where gen = gen and ks = keys]
    obtain bs s' ns' where r:
      "Insert_all compare gen MaxHeight ?e keys = Some (Inr (bs, s'))"
      "skiplist_inv compare MaxHeight s' ns'"
      "length bs = length keys" "size' s' = size' ?e + length (filter id bs)"
      "\<And>q. (\<exists>a \<in> set ns'. equiv compare q (keyof (store s') a)) =
              ((\<exists>a \<in> set []. equiv compare q (keyof (store ?e) a)) \<or>
               (\<exists>x \<in> set keys. equiv compare q x))"
      "(\<forall>x \<in> set keys. \<not> (\<exists>a \<in> set []. equiv compare x (keyof (store ?e) a))) \<and>
           sorted_wrt (\<lambda>a b. \<not> equiv compare a b) keys \<longrightarrow> (\<forall>b \<in> set bs. b)"
      by blast
    have sz: "Size s' = length (filter id bs)"
      using r(4) by (simp add: Size_def SkipList_new_def)
    have si: "store_inv compare MaxHeight (store s') (header s') ns'"
      using r(2) by (simp add: skiplist_inv_def)
    have c: "\<forall>k \<in> set keys. Contains compare MaxHeight s' k = Some (Inr True)"
    proof
      fix k assume "k \<in> set keys"
      then have "\<exists>a \<in> set ns'. equiv compare k (keyof (store s') a)"
        using r(5) [of k] equiv_refl [OF assms(1), of k] by auto
      then show "Contains compare MaxHeight s' k = Some (Inr True)"
        using Contains_store_inv [OF assms(1) si, of k] by simp
    qed
    have d: "(\<forall>b \<in> set bs. b) \<and> Size s' = length keys"
      if "sorted_wrt (\<lambda>a b. \<not> equiv compare a b) keys"
    proof -
      have a: "\<forall>b \<in> set bs. b" using r(6) that by simp
      then have "filter id bs = bs" by (simp add: filter_id_conv)
      then show ?thesis using a sz r(3) by simp
    qed
    show "\<exists>bs s'.
            Insert_all compare gen MaxHeight ?e keys = Some (Inr (bs, s')) \<and>
            length bs = length keys \<and> Size s' = length (filter id bs) \<and>
            (\<forall>k \<in> set keys. Contains compare MaxHeight s' k = Some (Inr True)) \<and>
            (sorted_wrt (\<lambda>a b. \<not> equiv compare a b) keys \<longrightarrow>
               (\<forall>b \<in> set bs. b) \<and> Size s' = length keys)"
      using r(1,3) sz c d by blast
  qed
qed

theorem Insert_absent_key_witness:
  "strict_weak_order ((<) :: int \<Rightarrow> int \<Rightarrow> bool) \<and> (0::nat) < 2 \<and>
   run_ops (<) ex_gen 2 (SkipList_new 2 0 0) [OpInsert 5, OpInsert 3] = Some (Inr ex_list) \<and>
   level_chain ex_list 0 [2, 1] \<and>
   \<not> equiv (<) 4 (keyof (store ex_list) 2) \<and> \<not> equiv (<) 4 (keyof (store ex_list) 1) \<and>
   (\<exists>s'. Insert (<) ex_gen 2 ex_list 4 = Some (Inr (True, s')) \<and>
          Size s' = Size ex_list + 1 \<and> Contains (<) 2 s' 4 = Some (Inr True)) \<and>
   sorted_wrt (\<lambda>a b. \<not> equiv (<) a b) [5, 3, 8 :: int] \<and>
   (\<exists>bs s'. Insert_all (<) ex_gen 2 (SkipList_new 2 0 0) [5, 3, 8 :: int] = Some (Inr (bs, s')) \<and>
          Size s' = 3 \<and> Contains (<) 2 s' 5 = Some (Inr True) \<and>
          Contains (<) 2 s' 3 = Some (Inr True) \<and> Contains (<) 2 s' 8 = Some (Inr True))"
proof -
  have M: "(0::nat) < 2" by simp
  have k: "\<not> equiv (<) 4 (keyof (store ex_list) 2)" "\<not> equiv (<) 4 (keyof (store ex_list) 1)"
    by (simp_all add: equiv_def keyof_def ex_list_def)
  then have h: "\<forall>a \<in> set [2, 1]. \<not> equiv (<) 4 (keyof (store ex_list) a)" by simp
  have d: "sorted_wrt (\<lambda>a b. \<not> equiv (<) a b) [5, 3, 8 :: int]"
    by (simp add: equiv_def)
  note t = Insert_absent_key [OF ex_swo M ex_run ex_chain0 h]
  from t have 1: "\<exists>s'. Insert (<) ex_gen 2 ex_list 4 = Some (Inr (True, s')) \<and>
          Size s' = Size ex_list + 1 \<and> Contains (<) 2 s' 4 = Some (Inr True)"
    by blast
  from t obtain bs s' where r:
    "Insert_all (<) ex_gen 2 (SkipList_new 2 0 0) [5, 3, 8 :: int] = Some (Inr (bs, s'))"
    "\<forall>k \<in> set [5, 3, 8]. Contains (<) 2 s' k = Some (Inr True)"
    "sorted_wrt (\<lambda>a b. \<not> equiv (<) a b) [5, 3, 8 :: int] \<longrightarrow>
       (\<forall>b \<in> set bs. b) \<and> Size s' = length [5, 3, 8 :: int]"
    by blast
  have c: "Contains (<) 2 s' 5 = Some (Inr True)" "Contains (<) 2 s' 3 = Some (Inr True)"
    "Contains (<) 2 s' 8 = Some (Inr True)"
    using r(2) by simp_all
  have "Size s' = length [5, 3, 8 :: int]" using r(3) d by blast
  then have "Size s' = 3" by simp
  then have 2: "\<exists>bs s'. Insert_all (<) ex_gen 2 (SkipList_new 2 0 0) [5, 3, 8 :: int] = Some (Inr (bs, s')) \<and>
          Size s' = 3 \<and> Contains (<) 2 s' 5 = Some (Inr True) \<and>
          Contains (<) 2 s' 3 = Some (Inr True) \<and> Contains (<) 2 s' 8 = Some (Inr True)"
    using r(1) c by blast
  show ?thesis using ex_swo M ex_run ex_chain0 k 1 d 2 by blast
qed

text \<open>
  C5. In a reachable container, \<open>Insert\<close> of a key followed by \<open>Erase\<close> of the same key:
  both calls return, \<open>Erase\<close> returns true, and \<open>Contains\<close> is false for the key afterwards.
  The level-0 chain is then the chain from before the two calls without the node whose
  key is equivalent to the key, in the same order and with the same keys, and \<open>Contains\<close>
  holds for the key of each of its nodes.
\<close>

theorem Insert_then_Erase:
  assumes "strict_weak_order compare" "0 < MaxHeight"
    and "run_ops compare gen MaxHeight (SkipList_new MaxHeight k0 g0) xs = Some (Inr s)"
    and "level_chain s 0 as"
  shows "\<exists>b s1 s2.
           Insert compare gen MaxHeight s key = Some (Inr (b, s1)) \<and>
           Erase compare MaxHeight s1 key = Some (Inr (True, s2)) \<and>
           Contains compare MaxHeight s2 key = Some (Inr False) \<and>
           level_chain s2 0 (filter (\<lambda>a. \<not> equiv compare key (keyof (store s) a)) as) \<and>
           (\<forall>a \<in> set as. keyof (store s2) a = keyof (store s) a) \<and>
           (\<forall>a \<in> set as. \<not> equiv compare key (keyof (store s) a) \<longrightarrow>
              Contains compare MaxHeight s2 (keyof (store s) a) = Some (Inr True))"
proof -
  obtain ns where ns: "skiplist_inv compare MaxHeight s ns"
    using run_ops_reach [OF assms(1,2,3)] by blast
  have as: "as = ns"
    using level_chain_unique [OF assms(4) inv_level_chain0 [OF ns assms(2)]] .
  have main: "\<exists>b s1 s2 ns2.
      Insert compare gen MaxHeight s key = Some (Inr (b, s1)) \<and>
      Erase compare MaxHeight s1 key = Some (Inr (True, s2)) \<and>
      skiplist_inv compare MaxHeight s2 ns2 \<and>
      ns2 = filter (\<lambda>a. \<not> equiv compare key (keyof (store s) a)) ns \<and>
      (\<forall>a \<in> set ns. keyof (store s2) a = keyof (store s) a)"
  proof (cases "\<exists>a \<in> set ns. equiv compare key (keyof (store s) a)")
    case True
    have i: "Insert compare gen MaxHeight s key = Some (Inr (False, s))"
      using Insert_inv_present [OF assms(1) ns True] .
    from Erase_inv_present [OF assms(1) ns True] obtain s2 lo e hi where e:
      "ns = lo @ e # hi" "equiv compare key (keyof (store s) e)"
      "\<forall>a \<in> set lo. compare (keyof (store s) a) key"
      "\<forall>a \<in> set hi. compare key (keyof (store s) a)"
      "Erase compare MaxHeight s key = Some (Inr (True, s2))"
      "skiplist_inv compare MaxHeight s2 (lo @ hi)"
      "\<forall>a. keyof (store s2) a = keyof (store s) a"
      by blast
    have "filter (\<lambda>a. \<not> equiv compare key (keyof (store s) a)) (lo @ e # hi) = lo @ hi"
      using e(2,3,4) by (auto simp: equiv_def filter_id_conv)
    then show ?thesis using i e by auto
  next
    case False
    from Insert_inv_absent [OF assms(1,2) ns False, of gen] obtain s1 lo hi where s1:
      "ns = lo @ hi" "Insert compare gen MaxHeight s key = Some (Inr (True, s1))"
      "skiplist_inv compare MaxHeight s1 (lo @ length (store s) # hi)"
      "keyof (store s1) (length (store s)) = key"
      "\<forall>a < length (store s). keyof (store s1) a = keyof (store s) a"
      by blast
    let ?t = "length (store s)"
    have pr: "\<exists>a \<in> set (lo @ ?t # hi). equiv compare key (keyof (store s1) a)"
      using s1(4) equiv_refl [OF assms(1), of key] by auto
    from Erase_inv_present [OF assms(1) s1(3) pr] obtain s2 lo' e hi' where e:
      "lo @ ?t # hi = lo' @ e # hi'"
      "\<forall>a \<in> set lo'. compare (keyof (store s1) a) key"
      "\<forall>a \<in> set hi'. compare key (keyof (store s1) a)"
      "Erase compare MaxHeight s1 key = Some (Inr (True, s2))"
      "skiplist_inv compare MaxHeight s2 (lo' @ hi')"
      "\<forall>a. keyof (store s2) a = keyof (store s1) a"
      by blast
    have "?t \<in> set (lo' @ e # hi')" using e(1) by (metis in_set_conv_decomp)
    moreover have "?t \<notin> set lo'" "?t \<notin> set hi'"
      using e(2,3) s1(4) swo_irrefl [OF assms(1)] by auto
    ultimately have et: "e = ?t" by auto
    have dist: "distinct (lo @ ?t # hi)"
      using s1(3) by (simp add: skiplist_inv_def store_inv_def)
    then have "?t \<notin> set lo" "?t \<notin> set hi" by auto
    then have "lo = lo' \<and> hi = hi'"
      using e(1) et append_Cons_eq_iff [of ?t lo hi lo' hi'] by simp
    then have inv2: "skiplist_inv compare MaxHeight s2 ns" using e(5) s1(1) by simp
    have old: "\<forall>a \<in> set ns. a < length (store s)"
      using ns by (simp add: skiplist_inv_def store_inv_def)
    have ky: "\<forall>a \<in> set ns. keyof (store s2) a = keyof (store s) a"
      using e(6) s1(5) old by simp
    have "filter (\<lambda>a. \<not> equiv compare key (keyof (store s) a)) ns = ns"
      using False by (simp add: filter_id_conv)
    then show ?thesis using s1(2) e(4) inv2 ky by auto
  qed
  then obtain b s1 s2 ns2 where r:
    "Insert compare gen MaxHeight s key = Some (Inr (b, s1))"
    "Erase compare MaxHeight s1 key = Some (Inr (True, s2))"
    "skiplist_inv compare MaxHeight s2 ns2"
    "ns2 = filter (\<lambda>a. \<not> equiv compare key (keyof (store s) a)) ns"
    "\<forall>a \<in> set ns. keyof (store s2) a = keyof (store s) a"
    by blast
  have si: "store_inv compare MaxHeight (store s2) (header s2) ns2"
    using r(3) by (simp add: skiplist_inv_def)
  have k2: "\<forall>a \<in> set ns2. keyof (store s2) a = keyof (store s) a \<and>
      \<not> equiv compare key (keyof (store s) a)"
    using r(4,5) by simp
  have 1: "Contains compare MaxHeight s2 key = Some (Inr False)"
    using Contains_store_inv [OF assms(1) si, of key] k2 by simp
  have 2: "level_chain s2 0 ns2" using inv_level_chain0 [OF r(3) assms(2)] .
  have 3: "Contains compare MaxHeight s2 (keyof (store s) a) = Some (Inr True)"
    if "a \<in> set ns" "\<not> equiv compare key (keyof (store s) a)" for a
  proof -
    have "a \<in> set ns2" using that r(4) by simp
    moreover have "equiv compare (keyof (store s) a) (keyof (store s2) a)"
      using r(5) that(1) equiv_refl [OF assms(1)] by simp
    ultimately show ?thesis
      using Contains_store_inv [OF assms(1) si, of "keyof (store s) a"] by auto
  qed
  show ?thesis using r(1,2,4,5) 1 2 3 as by blast
qed

theorem Insert_then_Erase_witness:
  "strict_weak_order ((<) :: int \<Rightarrow> int \<Rightarrow> bool) \<and> (0::nat) < 2 \<and>
   run_ops (<) ex_gen 2 (SkipList_new 2 0 0) [OpInsert 5, OpInsert 3] = Some (Inr ex_list) \<and>
   level_chain ex_list 0 [2, 1] \<and>
   (\<exists>b s1 s2.
      Insert (<) ex_gen 2 ex_list 5 = Some (Inr (b, s1)) \<and>
      Erase (<) 2 s1 5 = Some (Inr (True, s2)) \<and>
      Contains (<) 2 s2 5 = Some (Inr False) \<and>
      level_chain s2 0 [2] \<and> keyof (store s2) 2 = 3 \<and>
      Contains (<) 2 s2 3 = Some (Inr True))"
proof -
  have M: "(0::nat) < 2" by simp
  have f: "filter (\<lambda>a. \<not> equiv (<) 5 (keyof (store ex_list) a)) [2, 1] = [2]"
    by (simp add: equiv_def keyof_def ex_list_def)
  have k: "keyof (store ex_list) 2 = 3" "\<not> equiv (<) (5::int) 3"
    by (simp_all add: equiv_def keyof_def ex_list_def)
  from Insert_then_Erase [OF ex_swo M ex_run ex_chain0, of 5] obtain b s1 s2 where r:
    "Insert (<) ex_gen 2 ex_list 5 = Some (Inr (b, s1))"
    "Erase (<) 2 s1 5 = Some (Inr (True, s2))"
    "Contains (<) 2 s2 5 = Some (Inr False)"
    "level_chain s2 0 (filter (\<lambda>a. \<not> equiv (<) 5 (keyof (store ex_list) a)) [2, 1])"
    "\<forall>a \<in> set [2, 1]. keyof (store s2) a = keyof (store ex_list) a"
    "\<forall>a \<in> set [2, 1]. \<not> equiv (<) 5 (keyof (store ex_list) a) \<longrightarrow>
        Contains (<) 2 s2 (keyof (store ex_list) a) = Some (Inr True)"
    by blast
  have "level_chain s2 0 [2]" using r(4) f by simp
  moreover have "keyof (store s2) 2 = 3" using r(5) k(1) by simp
  moreover have "Contains (<) 2 s2 3 = Some (Inr True)" using r(6) k by simp
  ultimately show ?thesis using ex_swo M ex_run ex_chain0 r(1,2,3) by blast
qed

text \<open>
  C9, as the claim states it, is false: \<open>Insert(4)\<close> into the example container splices the
  new node 3 at level 0 behind node 2, and the first \<open>SetNext\<close> call is the one on the
  predecessor 2, the second the one on the new node. The claim has them in the other
  order.
\<close>

theorem Insert_call_order_counterexample:
  "Insert_traced (<) ex_gen 2 ex_list 4 =
     Some (Inr (True,
       \<lparr>header = 0,
          store = [\<lparr>links = [Some 2, Some 1], nkey = 0\<rparr>,
                   \<lparr>links = [None, None], nkey = 5\<rparr>,
                   \<lparr>links = [Some 3], nkey = 3\<rparr>,
                   \<lparr>links = [Some 1], nkey = 4\<rparr>],
          size' = 3, rng = 3\<rparr>,
       [SetNextCall 2 0 (Some 3), SetNextCall 3 0 (Some 1)])) \<and>
   spec_splice_calls (store ex_list) (pred_at (store ex_list) (header ex_list) [2]) 3 [0..<1] =
     [SetNextCall 3 0 (Some 1), SetNextCall 2 0 (Some 3)] \<and>
   [SetNextCall 2 0 (Some 3), SetNextCall 3 0 (Some 1)] \<noteq>
     spec_splice_calls (store ex_list) (pred_at (store ex_list) (header ex_list) [2]) 3 [0..<1]"
  by code_simp

text \<open>
  C9, amended. In a reachable container a successful \<open>Insert\<close> (no node of the level-0
  chain has a key equivalent to the key) splices the new node at every level from 0 up to
  its height minus one, in ascending order of the levels. At each level the forward
  reference of the predecessor is read first, then the predecessor's forward reference is
  set to the new node, and then the new node's forward reference is set to the reference
  that was read. Afterwards the new node points, at each of these levels, to the
  predecessor's previous successor and the predecessor points to the new node. The
  predecessor of a level is the last node of the chain of this level whose key is smaller
  than the key, or the header.
\<close>

theorem Insert_call_order:
  assumes "strict_weak_order compare" "0 < MaxHeight"
    and "run_ops compare gen MaxHeight (SkipList_new MaxHeight k0 g0) xs = Some (Inr s)"
    and "level_chain s 0 as"
    and "\<forall>a \<in> set as. \<not> equiv compare key (keyof (store s) a)"
  shows "\<exists>lo hi s'. as = lo @ hi \<and>
           (\<forall>a \<in> set lo. compare (keyof (store s) a) key) \<and>
           (\<forall>a \<in> set hi. compare key (keyof (store s) a)) \<and>
           Insert_traced compare gen MaxHeight s key =
             Some (Inr (True, s',
               splice_calls (store s) (pred_at (store s) (header s) lo) (length (store s))
                 [0..<fst (RandomHeight gen MaxHeight (rng s))])) \<and>
           hgt (store s') (length (store s)) = fst (RandomHeight gen MaxHeight (rng s)) \<and>
           (\<forall>L < fst (RandomHeight gen MaxHeight (rng s)).
              lnk (store s') (length (store s)) L =
                lnk (store s) (pred_at (store s) (header s) lo L) L \<and>
              lnk (store s') (pred_at (store s) (header s) lo L) L = Some (length (store s)))"
proof -
  obtain ns where ns: "skiplist_inv compare MaxHeight s ns"
    using run_ops_reach [OF assms(1,2,3)] by blast
  have as: "as = ns"
    using level_chain_unique [OF assms(4) inv_level_chain0 [OF ns assms(2)]] .
  have inv: "store_inv compare MaxHeight (store s) (header s) ns" "size' s = length ns"
    using ns by (simp_all add: skiplist_inv_def)
  obtain lo hi where c: "ns = lo @ hi" "scan_ctx compare MaxHeight (store s) (header s) key lo hi"
    using scan_ctx_exists [OF assms(1) inv(1)] by blast
  have ab: "\<not> (\<exists>a \<in> set (lo @ hi). equiv compare key (keyof (store s) a))"
    using assms(5) as c(1) by simp
  let ?height = "fst (RandomHeight gen MaxHeight (rng s))"
  let ?c = "pred_at (store s) (header s) lo"
  let ?t = "length (store s)"
  have sz: "size' s = length (lo @ hi)" using inv(2) c(1) by simp
  from Insert_traced_absent [OF assms(1,2) c(2) sz ab, of gen] obtain h' where h':
    "Insert_traced compare gen MaxHeight s key =
       Some (Inr (True,
          s\<lparr>store := h', size' := size' s + 1, rng := snd (RandomHeight gen MaxHeight (rng s))\<rparr>,
          splice_calls (store s) ?c ?t [0..<?height]))"
    "spliced (store s @ [SkipNode_new ?height key]) ?c ?t ?height h'"
    by blast
  let ?s' = "s\<lparr>store := h', size' := size' s + 1, rng := snd (RandomHeight gen MaxHeight (rng s))\<rparr>"
  have cv: "?c L < ?t" for L using pred_at_in(2) [OF c(2)] .
  have hg: "hgt h' ?t = ?height"
    using h'(2) store_snoc(4) [of "store s" ?height key] unfolding spliced_def by simp
  have lk: "lnk h' ?t L = lnk (store s) (?c L) L \<and> lnk h' (?c L) L = Some ?t"
    if "L < ?height" for L
  proof -
    have "lnk h' ?t L = lnk (store s @ [SkipNode_new ?height key]) (?c L) L"
      using h'(2) that unfolding spliced_def by simp
    moreover have "lnk h' (?c L) L = Some ?t"
      using h'(2) that cv [of L] unfolding spliced_def by simp
    ultimately show ?thesis using store_snoc(3) [OF cv [of L]] by simp
  qed
  have "as = lo @ hi \<and>
           (\<forall>a \<in> set lo. compare (keyof (store s) a) key) \<and>
           (\<forall>a \<in> set hi. compare key (keyof (store s) a)) \<and>
           Insert_traced compare gen MaxHeight s key =
             Some (Inr (True, ?s', splice_calls (store s) ?c ?t [0..<?height])) \<and>
           hgt (store ?s') ?t = ?height \<and>
           (\<forall>L < ?height.
              lnk (store ?s') ?t L = lnk (store s) (?c L) L \<and>
              lnk (store ?s') (?c L) L = Some ?t)"
    using as c(1) scan_ctxD(3) [OF c(2)] absent_hi [OF c(2) ab] h'(1) hg lk by simp
  then show ?thesis by blast
qed

theorem Insert_call_order_witness:
  "strict_weak_order ((<) :: int \<Rightarrow> int \<Rightarrow> bool) \<and> (0::nat) < 2 \<and>
   run_ops (<) ex_gen 2 (SkipList_new 2 0 0) [OpInsert 5, OpInsert 3] = Some (Inr ex_list) \<and>
   level_chain ex_list 0 [2, 1] \<and>
   \<not> equiv (<) 4 (keyof (store ex_list) 2) \<and> \<not> equiv (<) 4 (keyof (store ex_list) 1) \<and>
   (\<exists>lo hi s'. [2, 1] = lo @ hi \<and>
      Insert_traced (<) ex_gen 2 ex_list 4 =
         Some (Inr (True, s',
           splice_calls (store ex_list) (pred_at (store ex_list) (header ex_list) lo)
             (length (store ex_list)) [0..<fst (RandomHeight ex_gen 2 (rng ex_list))])))"
proof -
  have M: "(0::nat) < 2" by simp
  have k: "\<not> equiv (<) 4 (keyof (store ex_list) 2)" "\<not> equiv (<) 4 (keyof (store ex_list) 1)"
    by (simp_all add: equiv_def keyof_def ex_list_def)
  then have h: "\<forall>a \<in> set [2, 1]. \<not> equiv (<) 4 (keyof (store ex_list) a)" by simp
  from Insert_call_order [OF ex_swo M ex_run ex_chain0 h]
  have "\<exists>lo hi s'. [2, 1] = lo @ hi \<and>
      Insert_traced (<) ex_gen 2 ex_list 4 =
         Some (Inr (True, s',
           splice_calls (store ex_list) (pred_at (store ex_list) (header ex_list) lo)
             (length (store ex_list)) [0..<fst (RandomHeight ex_gen 2 (rng ex_list))]))"
    by blast
  then show ?thesis using ex_swo M ex_run ex_chain0 k by blast
qed

end
